theory Spec2Isabelle
  imports Complex_Main "HOL-Library.Log_Nat"
begin

section \<open>JavaScript values used by the log analyser\<close>

text \<open>
  Strings are lists of characters (code units). A JavaScript number is a double. Whole
  numbers (epoch milliseconds, counts, indices, parsed digit strings) are \<open>int\<close> or
  \<open>nat\<close>: they are exact in the source as long as they stay below \<open>2^53\<close>. Fractions
  are rationals (\<open>rat\<close>). Where the rounding of an operation to the nearest double
  decides which array element is read, in \<open>calculatePercentile\<close>, the operation is
  rounded with \<open>to_double\<close>; the execution times, averages and bin borders are kept
  exact. \<open>NaN\<close>, \<open>undefined\<close> and an Invalid Date are written as \<open>None\<close> of an option
  type.
\<close>

definition is_digit :: "char \<Rightarrow> bool" where
  "is_digit c = (c \<in> set ''0123456789'')"

definition is_space :: "char \<Rightarrow> bool" where
  \<comment> \<open>\<open>\s\<close>: tab, line feed, vertical tab, form feed, carriage return, space, no-break space\<close>
  "is_space c = (c \<in> set [CHR 0x09, CHR 0x0A, CHR 0x0B, CHR 0x0C, CHR 0x0D, CHR 0x20, CHR 0xA0])"

definition is_line_terminator :: "char \<Rightarrow> bool" where
  "is_line_terminator c = (c \<in> set [CHR 0x0A, CHR 0x0D])"

definition to_lower :: "char \<Rightarrow> char" where
  "to_lower c =
     (case map_of (zip ''ABCDEFGHIJKLMNOPQRSTUVWXYZ'' ''abcdefghijklmnopqrstuvwxyz'') c of
        None \<Rightarrow> c
      | Some l \<Rightarrow> l)"

subsection \<open>Rounding to double precision\<close>

definition pow2 :: "int \<Rightarrow> rat" where
  "pow2 e = (if 0 \<le> e then 2 ^ nat e else 1 / 2 ^ nat (- e))"

definition expo :: "rat \<Rightarrow> int" where
  \<comment> \<open>for positive \<open>x\<close> the exponent \<open>e\<close> with \<open>2^e \<le> x < 2^(e+1)\<close>\<close>
  "expo x = (if 1 \<le> x then bitlen \<lfloor>x\<rfloor> - 1 else - bitlen (\<lceil>1 / x\<rceil> - 1))"

definition round_half_even :: "rat \<Rightarrow> int" where
  "round_half_even y =
     (if y - of_int \<lfloor>y\<rfloor> < 1 / 2 then \<lfloor>y\<rfloor>
      else if 1 / 2 < y - of_int \<lfloor>y\<rfloor> then \<lfloor>y\<rfloor> + 1
      else if even \<lfloor>y\<rfloor> then \<lfloor>y\<rfloor> else \<lfloor>y\<rfloor> + 1)"

definition to_double :: "rat \<Rightarrow> rat" where
  \<comment> \<open>The result of an arithmetic operation whose exact value is \<open>x\<close>: the nearest
      number with a significand of 53 bits, ties to the even significand. The exponent
      is not bounded. The index of \<open>calculatePercentile\<close> is the same with the bounded
      exponent of a double: an overflow to \<open>Infinity\<close> and the large value here both
      give an index past the end, and an underflow only occurs below 1, where the
      ceiling is at most 1 and the index is clamped to 0.\<close>
  "to_double x =
     (if x = 0 then 0
      else of_int (round_half_even (x / pow2 (expo \<bar>x\<bar> - 52))) * pow2 (expo \<bar>x\<bar> - 52))"

section \<open>Regular expressions as the source writes them\<close>

text \<open>
  The patterns of \<open>LogParser\<close> use literals, character classes, greedy and lazy
  repetition of a single class, alternation, optional groups, capture groups and the
  end anchor. The matcher below enumerates the matches of an expression at the start of
  the input in the priority order of a backtracking engine; the head of the list is the
  match JavaScript reports.
\<close>

datatype cset = Digit | Space | AnyChar | NoneOf string | OneOf string | DigitOrDot

fun in_cset :: "cset \<Rightarrow> char \<Rightarrow> bool" where
  "in_cset Digit c = is_digit c"
| "in_cset Space c = is_space c"
| "in_cset AnyChar c = (\<not> is_line_terminator c)"
| "in_cset (NoneOf cs) c = (c \<notin> set cs)"
| "in_cset (OneOf cs) c = (c \<in> set cs)"
| "in_cset DigitOrDot c = (is_digit c \<or> c = CHR ''.'')"

datatype re =
    Lit string
  | Cls cset
  | Seq re re
  | Alt re re
  | Star cset
  | LazyStar cset
  | Group nat re
  | Eps
  | Eol

type_synonym captures = "(nat \<times> string) list"

fun lit_match :: "bool \<Rightarrow> string \<Rightarrow> string \<Rightarrow> string option" where
  "lit_match ci [] s = Some s"
| "lit_match ci (p # ps) [] = None"
| "lit_match ci (p # ps) (x # xs) =
     (if (if ci then to_lower p = to_lower x else p = x) then lit_match ci ps xs else None)"

fun lazy_tails :: "cset \<Rightarrow> string \<Rightarrow> string list" where
  "lazy_tails k [] = [[]]"
| "lazy_tails k (x # xs) = (x # xs) # (if in_cset k x then lazy_tails k xs else [])"

fun greedy_tails :: "cset \<Rightarrow> string \<Rightarrow> string list" where
  "greedy_tails k [] = [[]]"
| "greedy_tails k (x # xs) = (if in_cset k x then greedy_tails k xs else []) @ [x # xs]"

fun rmatch :: "bool \<Rightarrow> re \<Rightarrow> string \<Rightarrow> captures \<Rightarrow> (captures \<times> string) list" where
  "rmatch ci (Lit l) s c = (case lit_match ci l s of None \<Rightarrow> [] | Some s' \<Rightarrow> [(c, s')])"
| "rmatch ci (Cls k) s c = (case s of [] \<Rightarrow> [] | x # xs \<Rightarrow> if in_cset k x then [(c, xs)] else [])"
| "rmatch ci (Seq a b) s c = concat (map (\<lambda>(c', s'). rmatch ci b s' c') (rmatch ci a s c))"
| "rmatch ci (Alt a b) s c = rmatch ci a s c @ rmatch ci b s c"
| "rmatch ci (Star k) s c = map (\<lambda>s'. (c, s')) (greedy_tails k s)"
| "rmatch ci (LazyStar k) s c = map (\<lambda>s'. (c, s')) (lazy_tails k s)"
| "rmatch ci (Group n r) s c =
     map (\<lambda>(c', s'). ((n, take (length s - length s') s) # c', s')) (rmatch ci r s c)"
| "rmatch ci Eps s c = [(c, s)]"
| "rmatch ci Eol s c = (if s = [] then [(c, s)] else [])"

text \<open>
  \<open>String.prototype.match\<close> without the global flag: the leftmost start position with
  a match. The result is the text before the match, the captures (group 0 is the whole
  match) and the text after it.
\<close>

fun search :: "bool \<Rightarrow> re \<Rightarrow> string \<Rightarrow> string \<Rightarrow> (string \<times> captures \<times> string) option" where
  "search ci r pre [] =
     (case rmatch ci (Group 0 r) [] [] of
        [] \<Rightarrow> None
      | (c, rest) # _ \<Rightarrow> Some (pre, c, rest))"
| "search ci r pre (x # xs) =
     (case rmatch ci (Group 0 r) (x # xs) [] of
        [] \<Rightarrow> search ci r (pre @ [x]) xs
      | (c, rest) # _ \<Rightarrow> Some (pre, c, rest))"

definition re_match :: "bool \<Rightarrow> re \<Rightarrow> string \<Rightarrow> captures option" where
  "re_match ci r s = map_option (\<lambda>(pre, c, rest). c) (search ci r [] s)"

definition re_test :: "bool \<Rightarrow> re \<Rightarrow> string \<Rightarrow> bool" where
  "re_test ci r s = (search ci r [] s \<noteq> None)"

definition re_replace :: "re \<Rightarrow> string \<Rightarrow> string \<Rightarrow> string" where
  \<comment> \<open>\<open>s.replace(r, rep)\<close> for a pattern without the global flag and a plain replacement\<close>
  "re_replace r rep s =
     (case search False r [] s of
        None \<Rightarrow> s
      | Some (pre, c, rest) \<Rightarrow> pre @ rep @ rest)"

fun seqs :: "re list \<Rightarrow> re" where
  "seqs [] = Eps"
| "seqs [r] = r"
| "seqs (r # rs) = Seq r (seqs rs)"

definition plus :: "cset \<Rightarrow> re" where
  "plus k = Seq (Cls k) (Star k)"

definition digits :: "nat \<Rightarrow> re" where
  "digits n = seqs (replicate n (Cls Digit))"

section \<open>LogParser\<close>

definition shard_suffix :: re where
  \<comment> \<open>\<open>/~\d+$/\<close>\<close>
  "shard_suffix = seqs [Lit ''~'', plus Digit, Eol]"

definition normalizeTableName :: "string \<Rightarrow> string" where
  "normalizeTableName tableName = re_replace shard_suffix [] tableName"


fun shard_here :: "string \<Rightarrow> bool" where
  \<comment> \<open>the whole text is a tilde followed by one or more digits\<close>
  "shard_here (x # d # ds) = (x = CHR ''~'' \<and> is_digit d \<and> list_all is_digit ds)"
| "shard_here _ = False"

fun split_shard :: "string \<Rightarrow> (string \<times> string) option" where
  "split_shard [] = None"
| "split_shard (x # xs) =
     (if shard_here (x # xs) then Some ([], x # xs)
      else map_option (\<lambda>(a, b). (x # a, b)) (split_shard xs))"

definition has_shard_suffix :: "string \<Rightarrow> bool" where
  \<comment> \<open>the name ends in \<open>~<digits>\<close>, read off from the end of the name\<close>
  "has_shard_suffix t =
     (takeWhile is_digit (rev t) \<noteq> [] \<and>
      (case dropWhile is_digit (rev t) of [] \<Rightarrow> False | x # _ \<Rightarrow> x = CHR ''~''))"

subsection \<open>The pattern table\<close>

definition timestamp_re :: re where
  \<comment> \<open>\<open>\d{4}-\d{2}-\d{2}T\d{2}:\d{2}:\d{2}\.\d+Z\<close>\<close>
  "timestamp_re = seqs [digits 4, Lit ''-'', digits 2, Lit ''-'', digits 2, Lit ''T'',
     digits 2, Lit '':'', digits 2, Lit '':'', digits 2, Lit ''.'', plus Digit, Lit ''Z'']"

definition PATTERNS_query :: re where
  "PATTERNS_query = seqs [Group 1 timestamp_re, LazyStar AnyChar, Lit ''QueryProgress'',
     plus Space, Group 2 (Alt (Lit ''fin'') (Lit ''exe'')), LazyStar AnyChar, Lit ''sql=`'',
     Group 3 (plus (NoneOf ''`'')), Lit ''`'', LazyStar AnyChar, Lit ''time='',
     Group 4 (plus Digit), Lit '']'']"

definition PATTERNS_walJob :: re where
  "PATTERNS_walJob = seqs [Group 1 timestamp_re, LazyStar AnyChar,
     Lit ''ApplyWal2TableJob job '', Alt (Lit ''finished'') (Lit ''ejected''),
     Lit '' [table='', Group 2 (plus (NoneOf '','')), Lit '', seqTxn='', plus Digit,
     Lit '', transactions='', Group 3 (plus Digit), Lit '', rows='', Group 4 (plus Digit),
     Lit '', time='', Group 5 (plus Digit), Lit ''ms, rate='', Group 6 (plus Digit),
     Lit ''rows/s, ampl='', Group 7 (plus DigitOrDot), Lit '']'']"

definition PATTERNS_walCommit :: re where
  "PATTERNS_walCommit = seqs [Group 1 timestamp_re, LazyStar AnyChar,
     Lit ''WalWriter commit [wal=/'', Group 2 (plus (NoneOf ''/'')), Lit ''/'',
     LazyStar AnyChar, Lit '', segTxn='', plus Digit, Lit '', seqTxn='', plus Digit,
     Lit '', rowLo='', Group 3 (plus Digit), Lit '', rowHi='', Group 4 (plus Digit), Lit '','']"

definition PATTERNS_partitionClosing :: re where
  "PATTERNS_partitionClosing = seqs [Group 1 timestamp_re, LazyStar AnyChar,
     Lit ''TableReader closed partition [path=/'', Group 2 (plus (NoneOf '',~/'')),
     Alt (Seq (Lit ''~'') (plus Digit)) Eps, Lit '', timestamp='',
     Group 3 (plus (NoneOf '']'')), Lit '']'']"

definition PATTERNS_pgwireConnection :: re where
  "PATTERNS_pgwireConnection = seqs [Group 1 timestamp_re, LazyStar AnyChar,
     Lit ''pg-server connected [ip='', Group 2 (plus (NoneOf '','')), Lit '', fd='',
     Group 3 (plus Digit), Lit '', connCount='', Group 4 (plus Digit), Lit '']'']"

definition PATTERNS_o3Partition :: re where
  \<comment> \<open>case-insensitive\<close>
  "PATTERNS_o3Partition = seqs [Lit ''o3 split partition [table='', Group 1 (plus (NoneOf '',''))]"

definition PATTERNS_partitionSquashing :: re where
  \<comment> \<open>case-insensitive\<close>
  "PATTERNS_partitionSquashing =
     seqs [Lit ''squashing partitions [table='', Group 1 (plus (NoneOf '',''))]"

definition PATTERNS_mergePartition :: re where
  "PATTERNS_mergePartition = seqs [Group 1 timestamp_re, LazyStar AnyChar,
     Lit ''TableWriter merged partition [table=`'', Group 2 (plus (NoneOf ''`'')),
     Lit ''`, ts='', LazyStar AnyChar, Lit '', txn='', Group 3 (plus Digit),
     Lit '', rows='', Group 4 (plus Digit), Lit '']'']"

definition PATTERNS_connectionLimit :: re where
  \<comment> \<open>case-insensitive\<close>
  "PATTERNS_connectionLimit =
     seqs [Lit ''max connection limit reached'', Star AnyChar, Lit ''unregistered listener'']"

subsection \<open>Built-ins of the platform\<close>

type_synonym jsdate = "int option"
  \<comment> \<open>a \<open>Date\<close>: its time value in epoch milliseconds, \<open>None\<close> for an Invalid Date\<close>

definition grp :: "captures \<Rightarrow> nat \<Rightarrow> string" where
  \<comment> \<open>\<open>match[n]\<close>; every group read by the parser takes part in every match\<close>
  "grp m n = (case map_of m n of None \<Rightarrow> [] | Some s \<Rightarrow> s)"

definition digit_val :: "char \<Rightarrow> int" where
  "digit_val c = (case map_of (zip ''0123456789'' [0, 1, 2, 3, 4, 5, 6, 7, 8, 9]) c of
     None \<Rightarrow> 0 | Some v \<Rightarrow> v)"

definition parseInt :: "string \<Rightarrow> int" where
  \<comment> \<open>\<open>parseInt\<close> on a capture of \<open>\d+\<close>, the only texts the parser passes to it\<close>
  "parseInt s = foldl (\<lambda>a c. 10 * a + digit_val c) 0 (takeWhile is_digit s)"

definition parseFloat :: "string \<Rightarrow> rat option" where
  \<comment> \<open>\<open>parseFloat\<close> on a capture of \<open>[\d.]+\<close>: the longest decimal prefix, \<open>None\<close> for NaN\<close>
  "parseFloat s =
     (let ip = takeWhile is_digit s; r = dropWhile is_digit s;
          fp = (case r of [] \<Rightarrow> [] | x # fs \<Rightarrow> if x = CHR ''.'' then takeWhile is_digit fs else [])
      in if ip = [] \<and> fp = [] then None
         else Some (of_int (parseInt ip) + of_int (parseInt fp) / 10 ^ length fp))"

fun split_chr :: "char \<Rightarrow> string \<Rightarrow> string list" where
  \<comment> \<open>\<open>s.split(c)\<close> for a one-character separator\<close>
  "split_chr c [] = [[]]"
| "split_chr c (x # xs) =
     (if x = c then [] # split_chr c xs
      else (case split_chr c xs of [] \<Rightarrow> [[x]] | p # ps \<Rightarrow> (x # p) # ps))"

fun join :: "string \<Rightarrow> string list \<Rightarrow> string" where
  "join sep [] = []"
| "join sep [x] = x"
| "join sep (x # y # ys) = x @ sep @ join sep (y # ys)"

subsection \<open>Records of the six categories\<close>

record Entry =
  timestamp :: jsdate
  "file" :: string

record QueryRecord = Entry +
  executionTimeMs :: rat
  sqlPreview :: string
  fullSql :: string

record WalJobRecord = Entry +
  wj_table :: string
  transactions :: int
  rows :: int
  timeMs :: int
  rate :: int
  amplification :: "rat option"

record WalCommitRecord = Entry +
  wc_table :: string
  rowsCommitted :: int
  rowLo :: int
  rowHi :: int

record PartitionClosingRecord = Entry +
  pc_table :: string
  partitionTimestamp :: string

record PgwireConnectionRecord = Entry +
  ip :: string
  fd :: int
  connCount :: int

record SystemEventRecord = Entry +
  errorType :: string
  ev_table :: "string option"
  message :: string

subsection \<open>The entry parsers\<close>

text \<open>
  \<open>new Date(text)\<close> is a built-in; the parsers take it as the parameter \<open>newDate\<close>.
  Neither \<open>new Date\<close> nor \<open>parseInt\<close> throws, so the \<open>catch\<close> branches of the source
  are never taken and have no counterpart here.
\<close>

definition make_sqlPreview :: "string \<Rightarrow> string" where
  \<comment> \<open>the expression bound to \<open>sqlPreview\<close> in \<open>parseQueryEntry\<close>\<close>
  "make_sqlPreview sql =
     join '' '' (take 5 (split_chr CHR '' '' sql)) @
     (if length (split_chr CHR '' '' sql) > 5 then ''...'' else [])"

definition parseQueryEntry :: "(string \<Rightarrow> jsdate) \<Rightarrow> string \<Rightarrow> string \<Rightarrow> QueryRecord option" where
  "parseQueryEntry newDate line fileName =
     (case re_match False PATTERNS_query line of
        None \<Rightarrow> None
      | Some m \<Rightarrow>
          if grp m 2 \<noteq> ''fin'' then None
          else
            let sql = grp m 3;
                timeMs = of_int (parseInt (grp m 4)) / 1000000
            in Some \<lparr>timestamp = newDate (grp m 1), file = fileName,
                     executionTimeMs = timeMs, sqlPreview = make_sqlPreview sql,
                     fullSql = sql\<rparr>)"

definition parseWalJobEntry :: "(string \<Rightarrow> jsdate) \<Rightarrow> string \<Rightarrow> string \<Rightarrow> WalJobRecord option" where
  "parseWalJobEntry newDate line fileName =
     (case re_match False PATTERNS_walJob line of
        None \<Rightarrow> None
      | Some m \<Rightarrow>
          Some \<lparr>timestamp = newDate (grp m 1), file = fileName,
                wj_table = normalizeTableName (grp m 2),
                transactions = parseInt (grp m 3), rows = parseInt (grp m 4),
                timeMs = parseInt (grp m 5), rate = parseInt (grp m 6),
                amplification = parseFloat (grp m 7)\<rparr>)"

definition parseWalCommitEntry :: "(string \<Rightarrow> jsdate) \<Rightarrow> string \<Rightarrow> string \<Rightarrow> WalCommitRecord option" where
  "parseWalCommitEntry newDate line fileName =
     (case re_match False PATTERNS_walCommit line of
        None \<Rightarrow> None
      | Some m \<Rightarrow>
          Some \<lparr>timestamp = newDate (grp m 1), file = fileName,
                wc_table = normalizeTableName (grp m 2),
                rowsCommitted = parseInt (grp m 4) - parseInt (grp m 3),
                rowLo = parseInt (grp m 3), rowHi = parseInt (grp m 4)\<rparr>)"

definition parsePartitionClosingEntry ::
  "(string \<Rightarrow> jsdate) \<Rightarrow> string \<Rightarrow> string \<Rightarrow> PartitionClosingRecord option" where
  "parsePartitionClosingEntry newDate line fileName =
     (case re_match False PATTERNS_partitionClosing line of
        None \<Rightarrow> None
      | Some m \<Rightarrow>
          Some \<lparr>timestamp = newDate (grp m 1), file = fileName,
                pc_table = normalizeTableName (grp m 2),
                partitionTimestamp = grp m 3\<rparr>)"

definition parsePgwireConnection ::
  "(string \<Rightarrow> jsdate) \<Rightarrow> string \<Rightarrow> string \<Rightarrow> PgwireConnectionRecord option" where
  \<comment> \<open>the inline pgwire block of the main loop\<close>
  "parsePgwireConnection newDate line fileName =
     (case re_match False PATTERNS_pgwireConnection line of
        None \<Rightarrow> None
      | Some m \<Rightarrow>
          Some \<lparr>timestamp = newDate (grp m 1), file = fileName,
                ip = grp m 2, fd = parseInt (grp m 3), connCount = parseInt (grp m 4)\<rparr>)"

definition parseSystemEvent :: "(string \<Rightarrow> jsdate) \<Rightarrow> string \<Rightarrow> string \<Rightarrow> SystemEventRecord option" where
  "parseSystemEvent newDate line fileName =
     (case re_match False (Group 1 timestamp_re) line of
        None \<Rightarrow> None
      | Some tm \<Rightarrow>
          if re_test True PATTERNS_connectionLimit line then
            Some \<lparr>timestamp = newDate (grp tm 1), file = fileName,
                  errorType = ''Connection Limit'', ev_table = None,
                  message = take 200 line\<rparr>
          else case re_match True PATTERNS_o3Partition line of
            Some m \<Rightarrow>
              Some \<lparr>timestamp = newDate (grp tm 1), file = fileName,
                    errorType = ''O3 Partition Split'',
                    ev_table = Some (normalizeTableName (grp m 1)),
                    message = ''O3 partition split for table: '' @ grp m 1\<rparr>
          | None \<Rightarrow>
          (case re_match True PATTERNS_partitionSquashing line of
            Some m \<Rightarrow>
              Some \<lparr>timestamp = newDate (grp tm 1), file = fileName,
                    errorType = ''Partition Squashing'',
                    ev_table = Some (normalizeTableName (grp m 1)),
                    message = ''Squashing partitions for table: '' @ grp m 1\<rparr>
          | None \<Rightarrow>
          (case re_match False PATTERNS_mergePartition line of
            Some m \<Rightarrow>
              Some \<lparr>timestamp = newDate (grp tm 1), file = fileName,
                    errorType = ''Merge Partition'',
                    ev_table = Some (normalizeTableName (grp m 2)),
                    message = ''Merged partition for table: '' @ grp m 2 @ '', rows: '' @ grp m 4\<rparr>
          | None \<Rightarrow> None)))"


subsection \<open>The main loop\<close>

record LogResult =
  queries :: "QueryRecord list"
  walJobs :: "WalJobRecord list"
  walCommits :: "WalCommitRecord list"
  partitionClosings :: "PartitionClosingRecord list"
  pgwireConnections :: "PgwireConnectionRecord list"
  systemEvents :: "SystemEventRecord list"

definition empty_result :: LogResult where
  "empty_result = \<lparr>queries = [], walJobs = [], walCommits = [], partitionClosings = [],
     pgwireConnections = [], systemEvents = []\<rparr>"

datatype pattern_kind =
  Query | WalApply | WalCommit | PartitionClose | PgwireConnection | SystemEvent

definition priority_order :: "pattern_kind list" where
  "priority_order = [Query, WalApply, WalCommit, PartitionClose, PgwireConnection, SystemEvent]"

text \<open>
  The body of the \<open>for\<close> loop for one line, without the progress report. Next to the
  updated collections it returns the extractors that were called for the line, in the
  order of the calls; a \<open>continue\<close> of the source ends the list.
\<close>

definition process_line ::
  "(string \<Rightarrow> jsdate) \<Rightarrow> string \<Rightarrow> string \<Rightarrow> LogResult \<Rightarrow> LogResult \<times> pattern_kind list" where
  "process_line newDate fileName line r =
     (case parseQueryEntry newDate line fileName of
        Some q \<Rightarrow> (r\<lparr>queries := queries r @ [q]\<rparr>, [Query])
      | None \<Rightarrow>
     (case parseWalJobEntry newDate line fileName of
        Some w \<Rightarrow> (r\<lparr>walJobs := walJobs r @ [w]\<rparr>, [Query, WalApply])
      | None \<Rightarrow>
     (case parseWalCommitEntry newDate line fileName of
        Some w \<Rightarrow> (r\<lparr>walCommits := walCommits r @ [w]\<rparr>, [Query, WalApply, WalCommit])
      | None \<Rightarrow>
     (case parsePartitionClosingEntry newDate line fileName of
        Some p \<Rightarrow> (r\<lparr>partitionClosings := partitionClosings r @ [p]\<rparr>,
                   [Query, WalApply, WalCommit, PartitionClose])
      | None \<Rightarrow>
     (case parsePgwireConnection newDate line fileName of
        Some p \<Rightarrow> (r\<lparr>pgwireConnections := pgwireConnections r @ [p]\<rparr>,
                   [Query, WalApply, WalCommit, PartitionClose, PgwireConnection])
      | None \<Rightarrow>
     (case parseSystemEvent newDate line fileName of
        Some e \<Rightarrow> (r\<lparr>systemEvents := systemEvents r @ [e]\<rparr>, priority_order)
      | None \<Rightarrow> (r, priority_order)))))))"

text \<open>
  The loop over the lines. \<open>cb\<close> tells whether a progress callback was supplied; the
  calls made to it are collected, in order, as pairs \<open>(i, totalLines)\<close>.
\<close>

fun parse_lines ::
  "(string \<Rightarrow> jsdate) \<Rightarrow> string \<Rightarrow> bool \<Rightarrow> nat \<Rightarrow> nat \<Rightarrow> string list \<Rightarrow>
   LogResult \<times> (nat \<times> nat) list \<Rightarrow> LogResult \<times> (nat \<times> nat) list" where
  "parse_lines newDate fileName cb totalLines i [] st = st"
| "parse_lines newDate fileName cb totalLines i (line # rest) (r, calls) =
     parse_lines newDate fileName cb totalLines (Suc i) rest
       (fst (process_line newDate fileName line r),
        if cb \<and> i mod 1000 = 0 then calls @ [(i, totalLines)] else calls)"

definition parseQuestDBLog ::
  "(string \<Rightarrow> jsdate) \<Rightarrow> string \<Rightarrow> string \<Rightarrow> bool \<Rightarrow> LogResult \<times> (nat \<times> nat) list" where
  "parseQuestDBLog newDate logContent fileName cb =
     parse_lines newDate fileName cb (length (split_chr CHR 0x0A logContent)) 0
       (split_chr CHR 0x0A logContent) (empty_result, [])"

definition spec_sqlPreview :: "string \<Rightarrow> string" where
  \<comment> \<open>the preview as the specification words it: the first five whitespace-delimited
      tokens, joined by single spaces, with an ellipsis when there are more than five\<close>
  "spec_sqlPreview sql =
     (let tokens = filter (\<lambda>w. w \<noteq> [])
            (split_chr CHR '' '' (map (\<lambda>c. if is_space c then CHR '' '' else c) sql))
      in join '' '' (take 5 tokens) @ (if length tokens > 5 then ''...'' else []))"

definition matches :: "(string \<Rightarrow> jsdate) \<Rightarrow> string \<Rightarrow> string \<Rightarrow> pattern_kind \<Rightarrow> bool" where
  \<comment> \<open>the extractor of the given kind returns a record for the line\<close>
  "matches newDate fileName line k =
     (case k of
        Query \<Rightarrow> parseQueryEntry newDate line fileName \<noteq> None
      | WalApply \<Rightarrow> parseWalJobEntry newDate line fileName \<noteq> None
      | WalCommit \<Rightarrow> parseWalCommitEntry newDate line fileName \<noteq> None
      | PartitionClose \<Rightarrow> parsePartitionClosingEntry newDate line fileName \<noteq> None
      | PgwireConnection \<Rightarrow> parsePgwireConnection newDate line fileName \<noteq> None
      | SystemEvent \<Rightarrow> parseSystemEvent newDate line fileName \<noteq> None)"

definition size_of :: "pattern_kind \<Rightarrow> LogResult \<Rightarrow> nat" where
  "size_of k r =
     (case k of
        Query \<Rightarrow> length (queries r)
      | WalApply \<Rightarrow> length (walJobs r)
      | WalCommit \<Rightarrow> length (walCommits r)
      | PartitionClose \<Rightarrow> length (partitionClosings r)
      | PgwireConnection \<Rightarrow> length (pgwireConnections r)
      | SystemEvent \<Rightarrow> length (systemEvents r))"

definition total_records :: "LogResult \<Rightarrow> nat" where
  "total_records r = sum_list (map (\<lambda>k. size_of k r) priority_order)"

definition line_records :: "(string \<Rightarrow> jsdate) \<Rightarrow> string \<Rightarrow> string \<Rightarrow> LogResult" where
  \<comment> \<open>the collections after the loop body has run on one line alone\<close>
  "line_records newDate fileName line = fst (process_line newDate fileName line empty_result)"

definition epoch :: "string \<Rightarrow> jsdate" where
  \<comment> \<open>a stand-in for \<open>new Date\<close> in the examples: every text is the date 0\<close>
  "epoch s = Some 0"

definition sample_query_line :: string where
  "sample_query_line =
     ''2025-09-03T13:24:11.877189Z I i.q.g.e.QueryProgress fin [id=12345, sql=`SELECT * FROM trades WHERE symbol = '' @
     [CHR 0x27] @ ''BTC'' @ [CHR 0x27] @ ''`, time=285890000]''"

definition sample_exe_line :: string where
  "sample_exe_line =
     ''2025-09-03T13:24:11.877189Z I i.q.g.e.QueryProgress exe [id=12345, sql=`SELECT 1`, time=285890000]''"

definition sample_wal_line :: string where
  "sample_wal_line =
     ''2025-09-03T13:24:22.148726Z I i.q.c.ApplyWal2TableJob job finished [table=trades~21, seqTxn=100, transactions=5, rows=1000, time=50ms, rate=20000rows/s, ampl=1.5]''"

definition exe_limit_line :: string where
  \<comment> \<open>a line with the marker \<open>exe\<close> that also carries the connection-limit phrase\<close>
  "exe_limit_line =
     ''2025-09-03T13:24:11.877189Z I i.q.g.e.QueryProgress exe [id=1, sql=`SELECT 1`, time=5] max connection limit reached, unregistered listener''"

definition double_space_line :: string where
  "double_space_line =
     ''2025-09-03T13:24:11.877189Z I i.q.g.e.QueryProgress fin [id=1, sql=`a  b c d e`, time=1000000]''"

section \<open>DataProcessor\<close>

definition calculatePercentile :: "rat list \<Rightarrow> rat \<Rightarrow> rat option" where
  \<comment> \<open>\<open>percentile\<close> is the value of a double. The quotient and the product are rounded
      to double; \<open>Math.ceil\<close>, the subtraction of 1 and \<open>Math.max\<close> are exact on the
      indices of an array. \<open>None\<close> is \<open>undefined\<close>, the value of an array read out of
      range.\<close>
  "calculatePercentile sortedArray percentile =
     (if length sortedArray = 0 then Some 0
      else
        let index = \<lceil>to_double (to_double (percentile / 100) *
                                  of_nat (length sortedArray))\<rceil> - 1;
            i = max 0 index
        in if nat i < length sortedArray then Some (sortedArray ! nat i) else None)"

definition exact_rank :: "rat list \<Rightarrow> rat \<Rightarrow> nat" where
  \<comment> \<open>the nearest-rank index of the specification, \<open>ceil(p / 100 * n) - 1\<close> clamped to
      \<open>[0, n - 1]\<close>, in exact arithmetic\<close>
  "exact_rank xs p =
     nat (max 0 (min (int (length xs) - 1) (\<lceil>(p / 100) * of_nat (length xs)\<rceil> - 1)))"

definition one_to_25 :: "rat list" where
  "one_to_25 = [1, 2, 3, 4, 5, 6, 7, 8, 9, 10, 11, 12, 13, 14, 15, 16, 17, 18, 19, 20, 21, 22,
     23, 24, 25]"

fun nan_min :: "int option \<Rightarrow> int option \<Rightarrow> int option" where
  "nan_min (Some a) (Some b) = Some (min a b)"
| "nan_min _ _ = None"

fun nan_max :: "int option \<Rightarrow> int option \<Rightarrow> int option" where
  "nan_max (Some a) (Some b) = Some (max a b)"
| "nan_max _ _ = None"

fun date_of_min :: "jsdate list \<Rightarrow> jsdate" where
  \<comment> \<open>\<open>new Date(Math.min(...ts))\<close>: NaN as soon as one argument is NaN; of no argument
      it is the date of \<open>Infinity\<close>, an Invalid Date\<close>
  "date_of_min [] = None"
| "date_of_min (t # ts) = foldl nan_min t ts"

fun date_of_max :: "jsdate list \<Rightarrow> jsdate" where
  "date_of_max [] = None"
| "date_of_max (t # ts) = foldl nan_max t ts"

record TimeMetrics =
  startTime :: "jsdate option"
  endTime :: "jsdate option"
  duration :: "rat option"
  tm_rate :: "rat option"

definition calculateTimeMetrics :: "jsdate list \<Rightarrow> TimeMetrics" where
  \<comment> \<open>the argument lists the \<open>timestamp\<close> fields of the data; a \<open>null\<close> start or end
      is the outer \<open>None\<close>, a NaN duration or rate is \<open>None\<close>\<close>
  "calculateTimeMetrics timestamps =
     (if length timestamps = 0 then
        \<lparr>startTime = None, endTime = None, duration = Some 0, tm_rate = Some 0\<rparr>
      else
        let st = date_of_min timestamps;
            en = date_of_max timestamps;
            d = (case (st, en) of
                   (Some a, Some b) \<Rightarrow> Some (of_int (b - a) / (1000 :: rat))
                 | _ \<Rightarrow> None)
        in \<lparr>startTime = Some st, endTime = Some en, duration = d,
            tm_rate = map_option (\<lambda>x. of_nat (length timestamps) / max 1 x) d\<rparr>)"

subsection \<open>Grouping by interval\<close>

record TimeBucket =
  bucket_timestamp :: jsdate
  items :: "QueryRecord list"
  avgTime :: rat
  maxTime :: rat
  count :: nat

definition intervalKey :: "int \<Rightarrow> QueryRecord \<Rightarrow> int option" where
  \<comment> \<open>\<open>Math.floor(time.getTime() / intervalMs) * intervalMs\<close>; NaN for an Invalid Date
      and for a zero interval (\<open>\<plusminus>Infinity * 0\<close> or \<open>0 / 0\<close>)\<close>
  "intervalKey intervalMs item =
     (case timestamp item of
        None \<Rightarrow> None
      | Some ms \<Rightarrow> if intervalMs = 0 then None else Some ((ms div intervalMs) * intervalMs))"

fun group_insert :: "'k \<Rightarrow> 'v \<Rightarrow> ('k \<times> 'v list) list \<Rightarrow> ('k \<times> 'v list) list" where
  \<comment> \<open>\<open>if (!grouped[k]) grouped[k] = []; grouped[k].push(v)\<close>, keys in insertion order\<close>
  "group_insert k v [] = [(k, [v])]"
| "group_insert k v ((k', vs) # rest) =
     (if k = k' then (k', vs @ [v]) # rest else (k', vs) # group_insert k v rest)"

definition is_array_index :: "int option \<Rightarrow> bool" where
  "is_array_index k = (case k of None \<Rightarrow> False | Some n \<Rightarrow> 0 \<le> n \<and> n < 4294967295)"

definition object_entries :: "(int option \<times> 'v) list \<Rightarrow> (int option \<times> 'v) list" where
  \<comment> \<open>\<open>Object.entries\<close>: integer-like keys ascending, then the other keys as inserted\<close>
  "object_entries kvs =
     sort_key (\<lambda>(k, v). case k of None \<Rightarrow> 0 | Some n \<Rightarrow> n) (filter (\<lambda>(k, v). is_array_index k) kvs) @
     filter (\<lambda>(k, v). \<not> is_array_index k) kvs"

definition make_bucket :: "int option \<times> QueryRecord list \<Rightarrow> TimeBucket" where
  \<comment> \<open>every group holds at least one item, so \<open>Math.max\<close> has an argument\<close>
  "make_bucket e =
     \<lparr>bucket_timestamp = fst e, items = snd e,
      avgTime = foldl (\<lambda>sum item. sum + executionTimeMs item) 0 (snd e) / of_nat (length (snd e)),
      maxTime = (case map executionTimeMs (snd e) of [] \<Rightarrow> 0 | x # xs \<Rightarrow> foldl max x xs),
      count = length (snd e)\<rparr>"

definition groupByInterval :: "QueryRecord list \<Rightarrow> int \<Rightarrow> TimeBucket list option" where
  \<comment> \<open>Time values and the interval are whole milliseconds. With valid bucket dates the
      comparator \<open>a.timestamp - b.timestamp\<close> sorts ascending. With an Invalid Date among
      several buckets the comparator yields NaN and the language leaves the order to the
      engine: the model returns \<open>None\<close> there.\<close>
  "groupByInterval data intervalMs =
     (let grouped = foldl (\<lambda>g item. group_insert (intervalKey intervalMs item) item g) [] data;
          buckets = map make_bucket (object_entries grouped)
      in if list_all (\<lambda>b. bucket_timestamp b \<noteq> None) buckets
         then Some (sort_key (\<lambda>b. case bucket_timestamp b of None \<Rightarrow> 0 | Some n \<Rightarrow> n) buckets)
         else if length buckets \<le> 1 then Some buckets
         else None)"

definition starts_before :: "TimeBucket \<Rightarrow> TimeBucket \<Rightarrow> bool" where
  \<comment> \<open>both buckets have a valid start and the first starts earlier\<close>
  "starts_before a b =
     (case (bucket_timestamp a, bucket_timestamp b) of
        (Some x, Some y) \<Rightarrow> x < y
      | _ \<Rightarrow> False)"

definition at_offset :: "int \<Rightarrow> rat \<Rightarrow> QueryRecord" where
  \<comment> \<open>a record with the given time value and execution time, for the examples\<close>
  "at_offset ms v = \<lparr>timestamp = Some ms, file = [], executionTimeMs = v,
     sqlPreview = [], fullSql = []\<rparr>"

subsection \<open>Histogram\<close>

datatype js_error = TypeError

record Bin =
  bin_start :: rat
  bin_end :: rat
  bin_count :: nat
  bin_values :: "rat list"

definition bin_index :: "rat \<Rightarrow> rat \<Rightarrow> nat \<Rightarrow> rat \<Rightarrow> nat option" where
  \<comment> \<open>\<open>Math.min(Math.floor((value - min) / binWidth), binCount - 1)\<close>; \<open>None\<close> when the
      result is no index of the bin array: NaN for a zero width (\<open>0 / 0\<close>), \<open>-1\<close> for no bins\<close>
  "bin_index mn binWidth binCount v =
     (if binWidth = 0 \<or> binCount = 0 then None
      else
        let k = min \<lfloor>(v - mn) / binWidth\<rfloor> (int binCount - 1)
        in if k < 0 then None else Some (nat k))"

fun populate :: "rat \<Rightarrow> rat \<Rightarrow> nat \<Rightarrow> rat list \<Rightarrow> Bin list \<Rightarrow> js_error + Bin list" where
  \<comment> \<open>\<open>bins[binIndex].count++\<close> throws a TypeError when \<open>bins[binIndex]\<close> is undefined\<close>
  "populate mn w binCount [] bins = Inr bins"
| "populate mn w binCount (v # vs) bins =
     (case bin_index mn w binCount v of
        None \<Rightarrow> Inl TypeError
      | Some i \<Rightarrow>
          if i < length bins
          then populate mn w binCount vs
                 (bins[i := (bins ! i)\<lparr>bin_count := bin_count (bins ! i) + 1,
                                         bin_values := bin_values (bins ! i) @ [v]\<rparr>])
          else Inl TypeError)"

definition createHistogramBins :: "rat list \<Rightarrow> nat \<Rightarrow> js_error + Bin list" where
  \<comment> \<open>the display label of a bin is left out\<close>
  "createHistogramBins data binCount =
     (case data of
        [] \<Rightarrow> Inr []
      | x # xs \<Rightarrow>
          let mn = foldl min x xs;
              mx = foldl max x xs;
              binWidth = (mx - mn) / of_nat binCount;
              bins = map (\<lambda>i. \<lparr>bin_start = mn + of_nat i * binWidth,
                                bin_end = mn + of_nat i * binWidth + binWidth,
                                bin_count = 0, bin_values = []\<rparr>) [0..<binCount]
          in populate mn binWidth binCount data bins)"

section \<open>FileUtils and FileHandler\<close>

datatype thrown = JsError string | NoMessage
  \<comment> \<open>a thrown \<open>Error\<close> with its message, or a value without a \<open>message\<close> property,
      such as the event with which \<open>reader.onerror\<close> rejects; a thrown \<open>null\<close> or
      \<open>undefined\<close>, on which the \<open>catch\<close> block would throw itself, is not among them\<close>

record Engine =
  maxArguments :: nat
  rangeErrorMessage :: string

text \<open>
  A call with a spread argument, \<open>f(...xs)\<close>, passes every element of \<open>xs\<close> as an
  argument of its own. A JavaScript engine passes only so many arguments and throws a
  \<open>RangeError\<close> when a call has more; the bound and the text of the error differ from
  engine to engine and are the two fields of \<open>Engine\<close>.
\<close>

definition range_error :: "Engine \<Rightarrow> thrown" where
  "range_error eng = JsError (rangeErrorMessage eng)"

definition spread_overflow :: "Engine \<Rightarrow> 'a list \<Rightarrow> bool" where
  "spread_overflow eng args = (maxArguments eng < length args)"

definition sample_engine :: Engine where
  \<comment> \<open>an engine that passes at most 65536 arguments\<close>
  "sample_engine = \<lparr>maxArguments = 65536,
     rangeErrorMessage = ''Maximum call stack size exceeded''\<rparr>"

fun error_message :: "thrown \<Rightarrow> string" where
  \<comment> \<open>\<open>${error.message}\<close>\<close>
  "error_message (JsError m) = m"
| "error_message NoMessage = ''undefined''"

definition createErrorMessage :: "string \<Rightarrow> thrown \<Rightarrow> string" where
  "createErrorMessage fileName error = ''Failed to process '' @ fileName @ '': '' @ error_message error"

record FileMetadata =
  fileName :: string
  meta_startTime :: "jsdate option"
  meta_endTime :: "jsdate option"
  recordCount :: nat

record UploadedFile =
  name :: string
  readFile :: "thrown + string"

record HandlerState =
  allResults :: LogResult
  fileMetadata :: "FileMetadata list"
  showErrorCalls :: "string list"
  errorAlert :: "string option"

definition initial_state :: HandlerState where
  "initial_state = \<lparr>allResults = empty_result, fileMetadata = [], showErrorCalls = [],
     errorAlert = None\<rparr>"

definition showError :: "string \<Rightarrow> HandlerState \<Rightarrow> HandlerState" where
  \<comment> \<open>the alert element is created once and its content replaced by each call\<close>
  "showError msg st = st\<lparr>showErrorCalls := showErrorCalls st @ [msg], errorAlert := Some msg\<rparr>"

definition addFileMetadata ::
  "string \<Rightarrow> jsdate option \<Rightarrow> jsdate option \<Rightarrow> nat \<Rightarrow> HandlerState \<Rightarrow> HandlerState" where
  "addFileMetadata fname st en n s =
     s\<lparr>fileMetadata := fileMetadata s @
        [\<lparr>fileName = fname, meta_startTime = st, meta_endTime = en, recordCount = n\<rparr>]\<rparr>"

text \<open>
  The six \<open>push(...result.x)\<close> of the merge, in the order of the source. Each is a call
  with a spread argument: when it throws, the collections pushed before it stay merged
  and the later ones are not reached. The result is the state reached and what was
  thrown, if anything.
\<close>

definition merge_results :: "Engine \<Rightarrow> LogResult \<Rightarrow> HandlerState \<Rightarrow> HandlerState \<times> thrown option" where
  "merge_results eng result s0 =
     (if spread_overflow eng (queries result) then (s0, Some (range_error eng))
      else
        let s1 = s0\<lparr>allResults := (allResults s0)
                   \<lparr>queries := queries (allResults s0) @ queries result\<rparr>\<rparr>
        in
      if spread_overflow eng (walJobs result) then (s1, Some (range_error eng))
      else
        let s2 = s1\<lparr>allResults := (allResults s1)
                   \<lparr>walJobs := walJobs (allResults s1) @ walJobs result\<rparr>\<rparr>
        in
      if spread_overflow eng (walCommits result) then (s2, Some (range_error eng))
      else
        let s3 = s2\<lparr>allResults := (allResults s2)
                   \<lparr>walCommits := walCommits (allResults s2) @ walCommits result\<rparr>\<rparr>
        in
      if spread_overflow eng (partitionClosings result) then (s3, Some (range_error eng))
      else
        let s4 = s3\<lparr>allResults := (allResults s3)
                   \<lparr>partitionClosings :=
                      partitionClosings (allResults s3) @ partitionClosings result\<rparr>\<rparr>
        in
      if spread_overflow eng (pgwireConnections result) then (s4, Some (range_error eng))
      else
        let s5 = s4\<lparr>allResults := (allResults s4)
                   \<lparr>pgwireConnections :=
                      pgwireConnections (allResults s4) @ pgwireConnections result\<rparr>\<rparr>
        in
      if spread_overflow eng (systemEvents result) then (s5, Some (range_error eng))
      else
        (s5\<lparr>allResults := (allResults s5)
              \<lparr>systemEvents := systemEvents (allResults s5) @ systemEvents result\<rparr>\<rparr>,
         None))"

definition file_timestamps :: "LogResult \<Rightarrow> jsdate list" where
  \<comment> \<open>\<open>allTimestamps\<close>; a \<open>Date\<close> object is truthy, so \<open>.filter(t => t)\<close> keeps all\<close>
  "file_timestamps result =
     filter (\<lambda>t. True)
       (map timestamp (queries result) @ map timestamp (walJobs result) @
        map timestamp (systemEvents result))"

definition all_six_timestamps :: "LogResult \<Rightarrow> jsdate list" where
  \<comment> \<open>the timestamps of the records of all six categories, as the specification counts\<close>
  "all_six_timestamps result =
     map timestamp (queries result) @ map timestamp (walJobs result) @
     map timestamp (walCommits result) @ map timestamp (partitionClosings result) @
     map timestamp (pgwireConnections result) @ map timestamp (systemEvents result)"

text \<open>
  The \<open>try\<close> block of one iteration of the loop over the files, with the state it
  reaches and what it throws, if anything. \<open>parser\<close> is the injected
  \<open>logParser.parseQuestDBLog\<close>. The block can throw where it reads the file, where it
  parses it, in \<open>calculateTimeMetrics\<close>, whose \<open>Math.min(...timestamps)\<close> is a call with
  a spread argument, and at each \<open>push\<close> of the merge. The metadata entry is added
  after the metrics are computed and before the merge.
\<close>

definition try_block ::
  "Engine \<Rightarrow> (string \<Rightarrow> string \<Rightarrow> thrown + LogResult) \<Rightarrow> HandlerState \<Rightarrow> UploadedFile \<Rightarrow>
   HandlerState \<times> thrown option" where
  "try_block eng parser s f =
     (case readFile f of
        Inl e \<Rightarrow> (s, Some e)
      | Inr content \<Rightarrow>
     (case parser content (name f) of
        Inl e \<Rightarrow> (s, Some e)
      | Inr result \<Rightarrow>
          let allTimestamps = file_timestamps result
          in if length allTimestamps > 0 \<and> spread_overflow eng allTimestamps
             then (s, Some (range_error eng))
             else
               let s' = (if length allTimestamps > 0
                         then let metrics = calculateTimeMetrics allTimestamps
                              in addFileMetadata (name f) (startTime metrics) (endTime metrics)
                                   (length allTimestamps) s
                         else s)
               in merge_results eng result s'))"

definition process_file ::
  "Engine \<Rightarrow> (string \<Rightarrow> string \<Rightarrow> thrown + LogResult) \<Rightarrow> HandlerState \<Rightarrow> UploadedFile \<Rightarrow>
   HandlerState" where
  \<comment> \<open>the \<open>try\<close> block and the \<open>catch\<close> block\<close>
  "process_file eng parser s f =
     (case try_block eng parser s f of
        (s', None) \<Rightarrow> s'
      | (s', Some e) \<Rightarrow>
          showError (''Failed to process '' @ name f @ '': '' @ error_message e) s')"

definition processFiles ::
  "Engine \<Rightarrow> (string \<Rightarrow> string \<Rightarrow> thrown + LogResult) \<Rightarrow> UploadedFile list \<Rightarrow> HandlerState" where
  "processFiles eng parser files = foldl (process_file eng parser) initial_state files"

definition logParser :: "(string \<Rightarrow> jsdate) \<Rightarrow> string \<Rightarrow> string \<Rightarrow> thrown + LogResult" where
  \<comment> \<open>the parser of this repository as the handler calls it, on the text of a file\<close>
  "logParser newDate content fname = Inr (fst (parseQuestDBLog newDate content fname True))"

definition failure :: "(string \<Rightarrow> string \<Rightarrow> thrown + LogResult) \<Rightarrow> UploadedFile \<Rightarrow> thrown option" where
  \<comment> \<open>what reading or parsing the file throws, if anything\<close>
  "failure parser f =
     (case readFile f of
        Inl e \<Rightarrow> Some e
      | Inr content \<Rightarrow> (case parser content (name f) of Inl e \<Rightarrow> Some e | Inr result \<Rightarrow> None))"

definition caught :: "Engine \<Rightarrow> (string \<Rightarrow> string \<Rightarrow> thrown + LogResult) \<Rightarrow> UploadedFile \<Rightarrow> thrown option" where
  \<comment> \<open>what the \<open>catch\<close> block receives for the file, if anything; the state in which
      the file is processed has no part in it\<close>
  "caught eng parser f = snd (try_block eng parser initial_state f)"

definition sample_commit_line :: string where
  "sample_commit_line =
     ''2025-09-03T13:24:22.148726Z I i.q.c.w.WalWriter commit [wal=/trades~21/wal335/323, segTxn=1, seqTxn=2, rowLo=80337, rowHi=80437, minTs=1''"

definition commit_only_file :: UploadedFile where
  \<comment> \<open>a log file whose only line is a WAL commit\<close>
  "commit_only_file = \<lparr>name = ''a.log'', readFile = Inr sample_commit_line\<rparr>"

definition mixed_result :: LogResult where
  \<comment> \<open>a parse result with a query at time 2000 and an earlier WAL commit at time 1000\<close>
  "mixed_result = empty_result\<lparr>
     queries := [\<lparr>timestamp = Some 2000, file = ''b.log'', executionTimeMs = 1,
                  sqlPreview = ''SELECT 1'', fullSql = ''SELECT 1''\<rparr>],
     walCommits := [\<lparr>timestamp = Some 1000, file = ''b.log'', wc_table = ''trades'',
                     rowsCommitted = 100, rowLo = 0, rowHi = 100\<rparr>]\<rparr>"

definition mixed_file :: UploadedFile where
  "mixed_file = \<lparr>name = ''b.log'', readFile = Inr []\<rparr>"

definition fixed_parser :: "LogResult \<Rightarrow> string \<Rightarrow> string \<Rightarrow> thrown + LogResult" where
  \<comment> \<open>an injected parser that returns the given result for every file\<close>
  "fixed_parser result content fname = Inr result"

definition error_of ::
  "Engine \<Rightarrow> (string \<Rightarrow> string \<Rightarrow> thrown + LogResult) \<Rightarrow> UploadedFile \<Rightarrow> string list" where
  \<comment> \<open>the message shown for a file: none when its \<open>try\<close> block ends without a throw\<close>
  "error_of eng parser f =
     (case caught eng parser f of None \<Rightarrow> [] | Some e \<Rightarrow> [createErrorMessage (name f) e])"

definition throwing_parser :: "LogResult \<Rightarrow> string \<Rightarrow> string \<Rightarrow> thrown + LogResult" where
  \<comment> \<open>an injected parser that throws on one content and returns the given result otherwise\<close>
  "throwing_parser result content fname =
     (if content = ''invalid content'' then Inl (JsError ''Parse failed'') else Inr result)"

definition bad_file :: UploadedFile where
  "bad_file = \<lparr>name = ''bad.log'', readFile = Inr ''invalid content''\<rparr>"

definition many_commits :: "Engine \<Rightarrow> LogResult" where
  \<comment> \<open>a parse result with one query and one WAL commit more than the engine passes as
      arguments\<close>
  "many_commits eng = empty_result\<lparr>
     queries := [\<lparr>timestamp = Some 2000, file = ''c.log'', executionTimeMs = 1,
                  sqlPreview = ''SELECT 1'', fullSql = ''SELECT 1''\<rparr>],
     walCommits := replicate (Suc (maxArguments eng))
                     \<lparr>timestamp = Some 1000, file = ''c.log'', wc_table = ''trades'',
                      rowsCommitted = 100, rowLo = 0, rowHi = 100\<rparr>\<rparr>"

definition big_file :: UploadedFile where
  "big_file = \<lparr>name = ''c.log'', readFile = Inr []\<rparr>"

chapter \<open>Properties\<close>

section \<open>Table-name normalization\<close>

lemma rmatch_Seq_assoc:
  "rmatch ci (Seq (Seq a b) d) s c = rmatch ci (Seq a (Seq b d)) s c"
proof -
  have "concat (map f (concat (map g xs))) = concat (map (\<lambda>x. concat (map f (g x))) xs)"
    for f :: "captures \<times> string \<Rightarrow> (captures \<times> string) list"
    and g :: "captures \<times> string \<Rightarrow> (captures \<times> string) list" and xs
    by (induction xs) auto
  then show ?thesis by (simp add: split_def)
qed

lemma rmatch_Star_Eol:
  "rmatch ci (Seq (Star k) Eol) s c = (if list_all (in_cset k) s then [(c, [])] else [])"
  by (induction s) auto

lemma rmatch_shard_suffix:
  "rmatch False shard_suffix s c = (if shard_here s then [(c, [])] else [])"
proof (cases s)
  case Nil
  then show ?thesis by (simp add: shard_suffix_def plus_def)
next
  case outer: (Cons x xs)
  show ?thesis
  proof (cases xs)
    case Nil
    with outer show ?thesis by (simp add: shard_suffix_def plus_def)
  next
    case (Cons d ds)
    have s: "s = x # d # ds" using outer Cons by simp
    have dig: "list_all (in_cset Digit) ds = list_all is_digit ds"
      by (induction ds) auto
    have "rmatch False shard_suffix s c =
          rmatch False (Seq (Lit ''~'') (Seq (Cls Digit) (Seq (Star Digit) Eol))) s c"
      by (simp add: shard_suffix_def plus_def rmatch.simps(3) [of _ "Lit _"] rmatch_Seq_assoc
          del: rmatch.simps)
    also have "\<dots> =
        (if x = CHR ''~'' \<and> is_digit d then rmatch False (Seq (Star Digit) Eol) ds c else [])"
      using s
      by (simp del: rmatch.simps(3)
          add: rmatch.simps(3) [of _ "Lit _"] rmatch.simps(3) [of _ "Cls _"])
    finally show ?thesis using s by (simp only: rmatch_Star_Eol dig shard_here.simps) auto
  qed
qed

lemma rmatch_shard:
  "rmatch False (Group 0 shard_suffix) s [] =
     (if shard_here s then [([(0, s)], [])] else [])"
  by (simp add: rmatch_shard_suffix del: shard_here.simps)

lemma search_shard:
  "search False shard_suffix pre s =
     map_option (\<lambda>(a, b). (pre @ a, [(0, b)], [])) (split_shard s)"
proof (induction s arbitrary: pre)
  case Nil
  show ?case using rmatch_shard [of "[]"] by simp
next
  case (Cons x xs)
  show ?case
    using rmatch_shard [of "x # xs"] Cons [of "pre @ [x]"]
    by (cases "split_shard xs") (auto simp del: rmatch.simps shard_here.simps)
qed

lemma normalize_split:
  "normalizeTableName t = (case split_shard t of None \<Rightarrow> t | Some (a, b) \<Rightarrow> a)"
  by (simp add: normalizeTableName_def re_replace_def search_shard split: option.splits)

lemma not_digit_tilde: "\<not> is_digit CHR ''~''"
  by (simp add: is_digit_def)

lemma split_shard_append:
  assumes "ds \<noteq> []" "list_all is_digit ds"
  shows "split_shard (p @ CHR ''~'' # ds) = Some (p, CHR ''~'' # ds)"
proof (induction p)
  case Nil
  from assms show ?case by (cases ds) auto
next
  case (Cons x p)
  have "\<not> shard_here (x # p @ CHR ''~'' # ds)"
    by (cases p) (auto simp: not_digit_tilde)
  with Cons show ?case by simp
qed

lemma split_shard_Some:
  "split_shard t = Some (a, b) \<Longrightarrow> t = a @ b \<and> shard_here b"
  by (induction t arbitrary: a) (auto split: if_splits simp del: shard_here.simps)

lemma shard_here_iff:
  "shard_here b \<longleftrightarrow> (\<exists>ds. b = CHR ''~'' # ds \<and> ds \<noteq> [] \<and> list_all is_digit ds)"
  by (cases b rule: shard_here.cases) auto

lemma has_shard_suffix_iff:
  "has_shard_suffix t \<longleftrightarrow> (\<exists>p ds. t = p @ CHR ''~'' # ds \<and> ds \<noteq> [] \<and> list_all is_digit ds)"
proof
  assume h: "has_shard_suffix t"
  define ds where "ds = rev (takeWhile is_digit (rev t))"
  define r where "r = dropWhile is_digit (rev t)"
  from h obtain r' where r: "r = CHR ''~'' # r'" and dne: "ds \<noteq> []"
    by (auto simp: has_shard_suffix_def r_def ds_def split: list.splits)
  have "rev t = rev ds @ r" by (simp add: ds_def r_def)
  then have "t = rev r' @ CHR ''~'' # ds" using r
    by (metis rev_append rev_rev_ident rev.simps(2) append.assoc append_Cons append_Nil)
  moreover have "list_all is_digit ds"
    unfolding ds_def list_all_iff by (auto dest: set_takeWhileD)
  ultimately show "\<exists>p ds. t = p @ CHR ''~'' # ds \<and> ds \<noteq> [] \<and> list_all is_digit ds"
    using dne by blast
next
  assume "\<exists>p ds. t = p @ CHR ''~'' # ds \<and> ds \<noteq> [] \<and> list_all is_digit ds"
  then obtain p ds where t: "t = p @ CHR ''~'' # ds" and d: "ds \<noteq> []" "list_all is_digit ds"
    by blast
  have rv: "rev t = rev ds @ CHR ''~'' # rev p" using t by simp
  have all: "\<forall>x\<in>set (rev ds). is_digit x" using d by (simp add: list_all_iff)
  have "takeWhile is_digit (rev ds @ CHR ''~'' # rev p) =
        rev ds @ takeWhile is_digit (CHR ''~'' # rev p)"
    by (rule takeWhile_append2) (use all in simp)
  then have "takeWhile is_digit (rev t) = rev ds"
    unfolding rv using not_digit_tilde by simp
  moreover have "dropWhile is_digit (rev ds @ CHR ''~'' # rev p) =
        dropWhile is_digit (CHR ''~'' # rev p)"
    by (rule dropWhile_append2) (use all in simp)
  then have "dropWhile is_digit (rev t) = CHR ''~'' # rev p"
    unfolding rv using not_digit_tilde by simp
  ultimately show "has_shard_suffix t" using d by (simp add: has_shard_suffix_def)
qed

lemma normalize_no_suffix: "\<not> has_shard_suffix t \<Longrightarrow> normalizeTableName t = t"
proof -
  assume n: "\<not> has_shard_suffix t"
  have "split_shard t = None"
  proof (cases "split_shard t")
    case None then show ?thesis .
  next
    case (Some ab)
    obtain a b where "ab = (a, b)" by (cases ab)
    with Some split_shard_Some [of t a b] have "t = a @ b" "shard_here b" by auto
    then have "has_shard_suffix t" unfolding has_shard_suffix_iff shard_here_iff by blast
    with n show ?thesis by simp
  qed
  then show ?thesis by (simp add: normalize_split)
qed

lemma normalize_strip:
  "ds \<noteq> [] \<Longrightarrow> list_all is_digit ds \<Longrightarrow> normalizeTableName (p @ ''~'' @ ds) = p"
  by (simp add: normalize_split split_shard_append)

text \<open>
  Claim C2, as the code has it. \<open>normalizeTableName\<close> strips exactly one trailing
  suffix of the shape \<open>~<digits>\<close> and leaves a name without such a suffix untouched.
  Applying it twice gives the same as applying it once whenever the result of the first
  application does not itself end in \<open>~<digits>\<close>. In particular \<open>foo~20\<close> becomes
  \<open>foo\<close> and \<open>foo\<close> stays \<open>foo\<close>.
\<close>

theorem normalizeTableName_single_suffix:
  "(ds \<noteq> [] \<and> list_all is_digit ds \<longrightarrow> normalizeTableName (p @ ''~'' @ ds) = p) \<and>
   (\<not> has_shard_suffix t \<longrightarrow> normalizeTableName t = t) \<and>
   (\<not> has_shard_suffix (normalizeTableName t) \<longrightarrow>
      normalizeTableName (normalizeTableName t) = normalizeTableName t) \<and>
   normalizeTableName ''foo~20'' = ''foo'' \<and> normalizeTableName ''foo'' = ''foo''"
proof -
  have a: "normalizeTableName ''foo~20'' = ''foo''"
    using normalize_strip [of "''20''" "''foo''"] by (simp add: is_digit_def)
  have b: "normalizeTableName ''foo'' = ''foo''"
    by (rule normalize_no_suffix) (simp add: has_shard_suffix_def is_digit_def)
  show ?thesis using a b normalize_strip normalize_no_suffix by blast
qed

theorem normalizeTableName_single_suffix_witness:
  "''20'' \<noteq> [] \<and> list_all is_digit ''20'' \<and> normalizeTableName (''foo'' @ ''~'' @ ''20'') = ''foo'' \<and>
   \<not> has_shard_suffix ''foo'' \<and> normalizeTableName ''foo'' = ''foo'' \<and>
   \<not> has_shard_suffix (normalizeTableName ''foo'') \<and>
   normalizeTableName (normalizeTableName ''foo'') = normalizeTableName ''foo''"
  using normalizeTableName_single_suffix [of "''20''" "''foo''" "''foo''"]
  by (simp add: has_shard_suffix_def is_digit_def)

text \<open>
  The normalization is not idempotent on every name: of two stacked suffixes only the
  last is stripped, and a second application strips the other.
\<close>

theorem normalizeTableName_not_idempotent:
  "normalizeTableName (normalizeTableName ''foo~1~2'') \<noteq> normalizeTableName ''foo~1~2''"
  by (simp add: normalize_split is_digit_def)

section \<open>Query extraction\<close>

lemma query_record_iff:
  "parseQueryEntry newDate line fname = Some q \<longleftrightarrow>
     (\<exists>m. re_match False PATTERNS_query line = Some m \<and> grp m 2 = ''fin'' \<and>
        q = \<lparr>timestamp = newDate (grp m 1), file = fname,
             executionTimeMs = of_int (parseInt (grp m 4)) / 1000000,
             sqlPreview = make_sqlPreview (grp m 3), fullSql = grp m 3\<rparr>)"
  by (auto simp: parseQueryEntry_def Let_def split: option.splits)

lemma spec_preview_agrees:
  assumes "list_all (\<lambda>c. is_space c \<longrightarrow> c = CHR '' '') sql" "[] \<notin> set (split_chr CHR '' '' sql)"
  shows "make_sqlPreview sql = spec_sqlPreview sql"
proof -
  have "map (\<lambda>c. if is_space c then CHR '' '' else c) sql = sql"
    using assms(1) by (induction sql) auto
  moreover have "filter (\<lambda>w. w \<noteq> []) (split_chr CHR '' '' sql) = split_chr CHR '' '' sql"
    using assms(2) by (auto simp: filter_id_conv)
  ultimately show ?thesis by (simp add: make_sqlPreview_def spec_sqlPreview_def)
qed

lemma sample_match:
  "re_match False PATTERNS_query sample_query_line =
     Some [(0, sample_query_line), (4, ''285890000''),
           (3, ''SELECT * FROM trades WHERE symbol = '' @ [CHR 0x27] @ ''BTC'' @ [CHR 0x27]),
           (2, ''fin''), (1, ''2025-09-03T13:24:11.877189Z'')]"
  by code_simp

lemma sample_record:
  "parseQueryEntry newDate sample_query_line fname =
     Some \<lparr>timestamp = newDate ''2025-09-03T13:24:11.877189Z'', file = fname,
           executionTimeMs = 28589 / 100, sqlPreview = ''SELECT * FROM trades WHERE...'',
           fullSql = ''SELECT * FROM trades WHERE symbol = '' @ [CHR 0x27] @ ''BTC'' @ [CHR 0x27]\<rparr>"
proof -
  have p: "parseInt ''285890000'' = 285890000" by code_simp
  show ?thesis
    unfolding parseQueryEntry_def sample_match
    by (simp add: grp_def p make_sqlPreview_def Let_def)
qed

lemma double_space_match:
  "re_match False PATTERNS_query double_space_line =
     Some [(0, double_space_line), (4, ''1000000''), (3, ''a  b c d e''), (2, ''fin''),
           (1, ''2025-09-03T13:24:11.877189Z'')]"
  by code_simp

lemma double_space_record:
  "parseQueryEntry newDate double_space_line fname =
     Some \<lparr>timestamp = newDate ''2025-09-03T13:24:11.877189Z'', file = fname,
           executionTimeMs = 1, sqlPreview = ''a  b c d...'', fullSql = ''a  b c d e''\<rparr>"
proof -
  have p: "parseInt ''1000000'' = 1000000" by code_simp
  show ?thesis
    unfolding parseQueryEntry_def double_space_match
    by (simp add: grp_def p make_sqlPreview_def Let_def)
qed

lemma double_space_spec: "spec_sqlPreview ''a  b c d e'' = ''a b c d e''"
  by (simp add: spec_sqlPreview_def is_space_def)

text \<open>
  Claim C7, as the code has it. A query record carries the captured nanoseconds divided
  by 1,000,000 as \<open>executionTimeMs\<close> and the captured statement as \<open>fullSql\<close>. Its
  \<open>sqlPreview\<close> is made of the first five pieces obtained by cutting the statement at
  every single space character, joined by single spaces, with \<open>...\<close> appended exactly
  when there are more than five pieces. For a statement whose only whitespace is single
  spaces between its words, this is the preview of the first five whitespace-delimited
  tokens. The sample line of the specification yields 285.89, the preview
  \<open>SELECT * FROM trades WHERE...\<close> and the full statement.
\<close>

theorem query_extraction:
  "(parseQueryEntry newDate line fname = Some q \<longrightarrow>
      (\<exists>m. re_match False PATTERNS_query line = Some m \<and>
         executionTimeMs q = of_int (parseInt (grp m 4)) / 1000000 \<and>
         fullSql q = grp m 3 \<and>
         sqlPreview q =
           join '' '' (take 5 (split_chr CHR '' '' (grp m 3))) @
           (if length (split_chr CHR '' '' (grp m 3)) > 5 then ''...'' else []))) \<and>
   (list_all (\<lambda>c. is_space c \<longrightarrow> c = CHR '' '') sql \<and> [] \<notin> set (split_chr CHR '' '' sql) \<longrightarrow>
      make_sqlPreview sql = spec_sqlPreview sql) \<and>
   map_option executionTimeMs (parseQueryEntry newDate sample_query_line fname) = Some (28589 / 100) \<and>
   map_option sqlPreview (parseQueryEntry newDate sample_query_line fname) =
     Some ''SELECT * FROM trades WHERE...'' \<and>
   map_option fullSql (parseQueryEntry newDate sample_query_line fname) =
     Some (''SELECT * FROM trades WHERE symbol = '' @ [CHR 0x27] @ ''BTC'' @ [CHR 0x27])"
proof (intro conjI)
  show "parseQueryEntry newDate line fname = Some q \<longrightarrow>
      (\<exists>m. re_match False PATTERNS_query line = Some m \<and>
         executionTimeMs q = of_int (parseInt (grp m 4)) / 1000000 \<and>
         fullSql q = grp m 3 \<and>
         sqlPreview q =
           join '' '' (take 5 (split_chr CHR '' '' (grp m 3))) @
           (if length (split_chr CHR '' '' (grp m 3)) > 5 then ''...'' else []))"
  proof
    assume "parseQueryEntry newDate line fname = Some q"
    then obtain m where m: "re_match False PATTERNS_query line = Some m"
      and q: "q = \<lparr>timestamp = newDate (grp m 1), file = fname,
             executionTimeMs = of_int (parseInt (grp m 4)) / 1000000,
             sqlPreview = make_sqlPreview (grp m 3), fullSql = grp m 3\<rparr>"
      unfolding query_record_iff by blast
    have "executionTimeMs q = of_int (parseInt (grp m 4)) / 1000000 \<and>
         fullSql q = grp m 3 \<and>
         sqlPreview q =
           join '' '' (take 5 (split_chr CHR '' '' (grp m 3))) @
           (if length (split_chr CHR '' '' (grp m 3)) > 5 then ''...'' else [])"
      unfolding q by (simp add: make_sqlPreview_def)
    with m show "\<exists>m. re_match False PATTERNS_query line = Some m \<and>
         executionTimeMs q = of_int (parseInt (grp m 4)) / 1000000 \<and>
         fullSql q = grp m 3 \<and>
         sqlPreview q =
           join '' '' (take 5 (split_chr CHR '' '' (grp m 3))) @
           (if length (split_chr CHR '' '' (grp m 3)) > 5 then ''...'' else [])"
      by blast
  qed
  show "list_all (\<lambda>c. is_space c \<longrightarrow> c = CHR '' '') sql \<and> [] \<notin> set (split_chr CHR '' '' sql) \<longrightarrow>
      make_sqlPreview sql = spec_sqlPreview sql"
    using spec_preview_agrees [of sql] by blast
  show "map_option executionTimeMs (parseQueryEntry newDate sample_query_line fname) = Some (28589 / 100)"
    unfolding sample_record by simp
  show "map_option sqlPreview (parseQueryEntry newDate sample_query_line fname) =
     Some ''SELECT * FROM trades WHERE...''"
    unfolding sample_record by simp
  show "map_option fullSql (parseQueryEntry newDate sample_query_line fname) =
     Some (''SELECT * FROM trades WHERE symbol = '' @ [CHR 0x27] @ ''BTC'' @ [CHR 0x27])"
    unfolding sample_record by simp
qed

theorem query_extraction_witness:
  "parseQueryEntry epoch sample_query_line ''test.log'' =
     Some \<lparr>timestamp = Some 0, file = ''test.log'', executionTimeMs = 28589 / 100,
           sqlPreview = ''SELECT * FROM trades WHERE...'',
           fullSql = ''SELECT * FROM trades WHERE symbol = '' @ [CHR 0x27] @ ''BTC'' @ [CHR 0x27]\<rparr> \<and>
   list_all (\<lambda>c. is_space c \<longrightarrow> c = CHR '' '') ''SELECT 1'' \<and>
   [] \<notin> set (split_chr CHR '' '' ''SELECT 1'') \<and>
   make_sqlPreview ''SELECT 1'' = spec_sqlPreview ''SELECT 1'' \<and>
   map_option executionTimeMs (parseQueryEntry epoch sample_query_line ''test.log'') =
     Some (28589 / 100)"
proof -
  have r: "parseQueryEntry epoch sample_query_line ''test.log'' =
     Some \<lparr>timestamp = Some 0, file = ''test.log'', executionTimeMs = 28589 / 100,
           sqlPreview = ''SELECT * FROM trades WHERE...'',
           fullSql = ''SELECT * FROM trades WHERE symbol = '' @ [CHR 0x27] @ ''BTC'' @ [CHR 0x27]\<rparr>"
    by (simp add: sample_record epoch_def)
  have h: "list_all (\<lambda>c. is_space c \<longrightarrow> c = CHR '' '') ''SELECT 1'' \<and>
           [] \<notin> set (split_chr CHR '' '' ''SELECT 1'')"
    by (simp add: is_space_def)
  from query_extraction [of epoch sample_query_line "''test.log''" _ "''SELECT 1''"] r h
  show ?thesis by simp
qed

text \<open>
  The preview is not the one of whitespace-delimited tokens: a statement of five words
  with a doubled space has six pieces, so the code cuts it after the fourth word and
  appends the ellipsis.
\<close>

theorem preview_not_whitespace_tokens:
  "map_option sqlPreview (parseQueryEntry epoch double_space_line ''test.log'') = Some ''a  b c d...'' \<and>
   map_option (\<lambda>q. spec_sqlPreview (fullSql q)) (parseQueryEntry epoch double_space_line ''test.log'') =
     Some ''a b c d e'' \<and>
   map_option sqlPreview (parseQueryEntry epoch double_space_line ''test.log'') \<noteq>
   map_option (\<lambda>q. spec_sqlPreview (fullSql q)) (parseQueryEntry epoch double_space_line ''test.log'')"
  by (simp add: double_space_record double_space_spec)

text \<open>
  Claim C10. A query record is produced only for the marker \<open>fin\<close>: whenever the query
  pattern matches a line and captures the marker \<open>exe\<close>, the pattern does match the line
  and \<open>parseQueryEntry\<close> returns no record; and every record that \<open>parseQueryEntry\<close>
  returns comes from a match whose marker is \<open>fin\<close>.
\<close>

theorem exe_marker_no_record:
  "(map_option (\<lambda>m. grp m 2) (re_match False PATTERNS_query line) = Some ''exe'' \<longrightarrow>
      re_test False PATTERNS_query line \<and> parseQueryEntry newDate line fname = None) \<and>
   (parseQueryEntry newDate line fname \<noteq> None \<longrightarrow>
      map_option (\<lambda>m. grp m 2) (re_match False PATTERNS_query line) = Some ''fin'')"
  by (auto simp: parseQueryEntry_def re_test_def re_match_def split: option.splits if_splits)

theorem exe_marker_no_record_witness:
  "map_option (\<lambda>m. grp m 2) (re_match False PATTERNS_query sample_exe_line) = Some ''exe'' \<and>
   re_test False PATTERNS_query sample_exe_line \<and>
   parseQueryEntry epoch sample_exe_line ''test.log'' = None \<and>
   parseQueryEntry epoch sample_query_line ''test.log'' \<noteq> None \<and>
   map_option (\<lambda>m. grp m 2) (re_match False PATTERNS_query sample_query_line) = Some ''fin''"
proof -
  have h: "map_option (\<lambda>m. grp m 2) (re_match False PATTERNS_query sample_exe_line) = Some ''exe''"
    by code_simp
  have g: "parseQueryEntry epoch sample_query_line ''test.log'' \<noteq> None"
    by (simp add: sample_record)
  from exe_marker_no_record [of sample_exe_line epoch "''test.log''"]
       exe_marker_no_record [of sample_query_line epoch "''test.log''"] h g
  show ?thesis by simp
qed

section \<open>The line loop of the parser\<close>

lemma process_line_outcome:
  "process_line newDate fname line r =
     (case find (matches newDate fname line) priority_order of
        None \<Rightarrow> (r, priority_order)
      | Some Query \<Rightarrow>
          (r\<lparr>queries := queries r @ [the (parseQueryEntry newDate line fname)]\<rparr>, [Query])
      | Some WalApply \<Rightarrow>
          (r\<lparr>walJobs := walJobs r @ [the (parseWalJobEntry newDate line fname)]\<rparr>,
           [Query, WalApply])
      | Some WalCommit \<Rightarrow>
          (r\<lparr>walCommits := walCommits r @ [the (parseWalCommitEntry newDate line fname)]\<rparr>,
           [Query, WalApply, WalCommit])
      | Some PartitionClose \<Rightarrow>
          (r\<lparr>partitionClosings :=
               partitionClosings r @ [the (parsePartitionClosingEntry newDate line fname)]\<rparr>,
           [Query, WalApply, WalCommit, PartitionClose])
      | Some PgwireConnection \<Rightarrow>
          (r\<lparr>pgwireConnections :=
               pgwireConnections r @ [the (parsePgwireConnection newDate line fname)]\<rparr>,
           [Query, WalApply, WalCommit, PartitionClose, PgwireConnection])
      | Some SystemEvent \<Rightarrow>
          (r\<lparr>systemEvents := systemEvents r @ [the (parseSystemEvent newDate line fname)]\<rparr>,
           priority_order))"
  by (simp add: process_line_def matches_def priority_order_def split: option.splits)

lemma tried_prefix:
  "snd (process_line newDate fname line r) =
     takeWhile (\<lambda>k. \<not> matches newDate fname line k) priority_order @
     (case find (matches newDate fname line) priority_order of None \<Rightarrow> [] | Some k \<Rightarrow> [k])"
  by (simp add: process_line_def matches_def priority_order_def split: option.splits)

lemma ceil_div_step:
  "(Suc n + 999) div 1000 = (n + 999) div 1000 + (if n mod 1000 = 0 then 1 else 0)"
proof -
  define q where "q = n div 1000"
  define t where "t = n mod 1000"
  have n: "n = t + 1000 * q" by (simp add: q_def t_def)
  have t: "t < 1000" by (simp add: t_def)
  have a: "(Suc n + 999) div 1000 = Suc q"
  proof (rule div_nat_eqI)
    show "1000 * Suc q \<le> Suc n + 999" using n by simp
    show "Suc n + 999 < 1000 * Suc (Suc q)" using n t by simp
  qed
  have b: "(n + 999) div 1000 = q + (if t = 0 then 0 else 1)"
  proof (cases "t = 0")
    case True
    have "(n + 999) div 1000 = q"
    proof (rule div_nat_eqI)
      show "1000 * q \<le> n + 999" using n by simp
      show "n + 999 < 1000 * Suc q" using n True by simp
    qed
    with True show ?thesis by simp
  next
    case False
    have "(n + 999) div 1000 = Suc q"
    proof (rule div_nat_eqI)
      show "1000 * Suc q \<le> n + 999" using n False by simp
      show "n + 999 < 1000 * Suc (Suc q)" using n t by simp
    qed
    with False show ?thesis by simp
  qed
  show ?thesis using a b by (simp add: t_def)
qed

lemma filter_mod_count:
  "length (filter (\<lambda>j. j mod 1000 = 0) [0..<n]) = (n + 999) div 1000"
proof (induction n)
  case 0
  show ?case by simp
next
  case (Suc n)
  show ?case using Suc ceil_div_step [of n] by simp
qed

lemma parse_lines_calls:
  "snd (parse_lines newDate fname cb n i ls (r, calls)) =
     calls @ (if cb then map (\<lambda>j. (j, n)) (filter (\<lambda>j. j mod 1000 = 0) [i..<i + length ls])
              else [])"
proof (induction ls arbitrary: i r calls)
  case Nil
  show ?case by simp
next
  case (Cons l ls)
  have "[i..<i + Suc (length ls)] = i # [Suc i..<i + Suc (length ls)]"
    by (subst upt_rec) simp
  then have u: "[i..<i + length (l # ls)] = i # [Suc i..<Suc i + length ls]"
    by simp
  show ?case
    unfolding parse_lines.simps Cons u by simp
qed

lemma size_step:
  "size_of k (fst (process_line newDate fname line r)) =
     size_of k r + (if find (matches newDate fname line) priority_order = Some k then 1 else 0)"
proof (cases "find (matches newDate fname line) priority_order")
  case None
  then show ?thesis unfolding process_line_outcome by simp
next
  case (Some j)
  then show ?thesis
    unfolding process_line_outcome
    by (cases j; cases k) (simp_all add: size_of_def)
qed

lemma total_step:
  "total_records (fst (process_line newDate fname line r)) \<le> total_records r + 1"
proof (cases "find (matches newDate fname line) priority_order")
  case None
  then show ?thesis unfolding process_line_outcome by simp
next
  case (Some j)
  then show ?thesis
    unfolding process_line_outcome
    by (cases j) (simp_all add: total_records_def size_of_def priority_order_def)
qed

lemma parse_lines_total:
  "total_records (fst (parse_lines newDate fname cb n i ls (r, calls))) \<le>
     total_records r + length ls"
proof (induction ls arbitrary: i r calls)
  case Nil
  show ?case by simp
next
  case (Cons l ls)
  let ?r = "fst (process_line newDate fname l r)"
  let ?c = "if cb \<and> i mod 1000 = 0 then calls @ [(i, n)] else calls"
  have a: "total_records ?r \<le> total_records r + 1" by (rule total_step)
  have b: "total_records (fst (parse_lines newDate fname cb n (Suc i) ls (?r, ?c))) \<le>
        total_records ?r + length ls"
    by (rule Cons)
  have "parse_lines newDate fname cb n i (l # ls) (r, calls) =
        parse_lines newDate fname cb n (Suc i) ls (?r, ?c)"
    by simp
  with a b show ?case by (simp del: parse_lines.simps)
qed

lemma empty_total: "total_records empty_result = 0"
  by (simp add: total_records_def size_of_def empty_result_def priority_order_def)


lemma ceil_div_1000:
  "\<lceil>(of_nat n :: rat) / 1000\<rceil> = int ((n + 999) div 1000)"
proof (rule ceiling_unique)
  define k where "k = (n + 999) div 1000"
  have lo: "1000 * k \<le> n + 999" unfolding k_def by simp
  have hi: "n + 999 < 1000 * Suc k" unfolding k_def by (simp add: dividend_less_times_div)
  from lo have "(of_nat (1000 * k) :: rat) \<le> of_nat (n + 999)" by (simp only: of_nat_le_iff)
  then have lo': "1000 * (of_nat k :: rat) \<le> of_nat n + 999" by simp
  from hi have "n \<le> 1000 * k" by simp
  then have "(of_nat n :: rat) \<le> of_nat (1000 * k)" by (simp only: of_nat_le_iff)
  then have hi': "(of_nat n :: rat) \<le> 1000 * of_nat k" by simp
  show "of_int (int ((n + 999) div 1000)) - 1 < (of_nat n :: rat) / 1000"
    using lo' by (simp add: k_def [symmetric] field_simps)
  show "(of_nat n :: rat) / 1000 \<le> of_int (int ((n + 999) div 1000))"
    using hi' by (simp add: k_def [symmetric] field_simps)
qed


lemma split_chr_nonempty: "split_chr c s \<noteq> []"
  by (induction s) (auto split: list.splits)

lemma length_split_chr: "length (split_chr c s) = Suc (length (filter (\<lambda>x. x = c) s))"
proof (induction s)
  case Nil
  show ?case by simp
next
  case (Cons x xs)
  then show ?case using split_chr_nonempty [of c xs]
    by (cases "split_chr c xs") auto
qed

lemma wal_line_not_query: "parseQueryEntry newDate sample_wal_line fname = None"
proof -
  have "re_match False PATTERNS_query sample_wal_line = None" by code_simp
  then show ?thesis by (simp add: parseQueryEntry_def)
qed

lemma wal_line_record:
  "parseWalJobEntry newDate sample_wal_line fname =
     Some \<lparr>timestamp = newDate ''2025-09-03T13:24:22.148726Z'', file = fname,
           wj_table = ''trades'', transactions = 5, rows = 1000, timeMs = 50, rate = 20000,
           amplification = Some (3 / 2)\<rparr>"
proof -
  have m: "re_match False PATTERNS_walJob sample_wal_line =
      Some [(0, sample_wal_line), (7, ''1.5''), (6, ''20000''), (5, ''50''), (4, ''1000''),
            (3, ''5''), (2, ''trades~21''), (1, ''2025-09-03T13:24:22.148726Z'')]"
    by code_simp
  have n: "normalizeTableName ''trades~21'' = ''trades''"
    using normalize_strip [of "''21''" "''trades''"] by (simp add: is_digit_def)
  have p: "parseInt ''5'' = 5" "parseInt ''1000'' = 1000" "parseInt ''50'' = 50"
    "parseInt ''20000'' = 20000"
    by code_simp+
  have f: "parseFloat ''1.5'' = Some (3 / 2)" by code_simp
  show ?thesis unfolding parseWalJobEntry_def m by (simp add: grp_def n p f)
qed

lemma parse_lines_fold:
  "fst (parse_lines newDate fname cb n i ls (r, calls)) =
     foldl (\<lambda>acc l. fst (process_line newDate fname l acc)) r ls"
  by (induction ls arbitrary: i r calls) simp_all

lemma process_line_appends:
  "queries (fst (process_line newDate fname l r)) =
     queries r @ queries (line_records newDate fname l)"
  "walJobs (fst (process_line newDate fname l r)) =
     walJobs r @ walJobs (line_records newDate fname l)"
  "walCommits (fst (process_line newDate fname l r)) =
     walCommits r @ walCommits (line_records newDate fname l)"
  "partitionClosings (fst (process_line newDate fname l r)) =
     partitionClosings r @ partitionClosings (line_records newDate fname l)"
  "pgwireConnections (fst (process_line newDate fname l r)) =
     pgwireConnections r @ pgwireConnections (line_records newDate fname l)"
  "systemEvents (fst (process_line newDate fname l r)) =
     systemEvents r @ systemEvents (line_records newDate fname l)"
  by (simp_all add: line_records_def process_line_def empty_result_def split: option.splits)

lemma fold_collects:
  "queries (foldl (\<lambda>acc l. fst (process_line newDate fname l acc)) r ls) =
     queries r @ concat (map (\<lambda>l. queries (line_records newDate fname l)) ls)"
  "walJobs (foldl (\<lambda>acc l. fst (process_line newDate fname l acc)) r ls) =
     walJobs r @ concat (map (\<lambda>l. walJobs (line_records newDate fname l)) ls)"
  "walCommits (foldl (\<lambda>acc l. fst (process_line newDate fname l acc)) r ls) =
     walCommits r @ concat (map (\<lambda>l. walCommits (line_records newDate fname l)) ls)"
  "partitionClosings (foldl (\<lambda>acc l. fst (process_line newDate fname l acc)) r ls) =
     partitionClosings r @
     concat (map (\<lambda>l. partitionClosings (line_records newDate fname l)) ls)"
  "pgwireConnections (foldl (\<lambda>acc l. fst (process_line newDate fname l acc)) r ls) =
     pgwireConnections r @
     concat (map (\<lambda>l. pgwireConnections (line_records newDate fname l)) ls)"
  "systemEvents (foldl (\<lambda>acc l. fst (process_line newDate fname l acc)) r ls) =
     systemEvents r @ concat (map (\<lambda>l. systemEvents (line_records newDate fname l)) ls)"
  by (induction ls arbitrary: r; simp add: process_line_appends)+

lemma parse_result_fold:
  "fst (parseQuestDBLog newDate logContent fname cb) =
     foldl (\<lambda>acc l. fst (process_line newDate fname l acc)) empty_result
       (split_chr CHR 0x0A logContent)"
  unfolding parseQuestDBLog_def by (rule parse_lines_fold)

lemma parse_result_collects:
  "queries (fst (parseQuestDBLog newDate logContent fname cb)) =
     concat (map (\<lambda>l. queries (line_records newDate fname l))
       (split_chr CHR 0x0A logContent))"
  "walJobs (fst (parseQuestDBLog newDate logContent fname cb)) =
     concat (map (\<lambda>l. walJobs (line_records newDate fname l))
       (split_chr CHR 0x0A logContent))"
  "walCommits (fst (parseQuestDBLog newDate logContent fname cb)) =
     concat (map (\<lambda>l. walCommits (line_records newDate fname l))
       (split_chr CHR 0x0A logContent))"
  "partitionClosings (fst (parseQuestDBLog newDate logContent fname cb)) =
     concat (map (\<lambda>l. partitionClosings (line_records newDate fname l))
       (split_chr CHR 0x0A logContent))"
  "pgwireConnections (fst (parseQuestDBLog newDate logContent fname cb)) =
     concat (map (\<lambda>l. pgwireConnections (line_records newDate fname l))
       (split_chr CHR 0x0A logContent))"
  "systemEvents (fst (parseQuestDBLog newDate logContent fname cb)) =
     concat (map (\<lambda>l. systemEvents (line_records newDate fname l))
       (split_chr CHR 0x0A logContent))"
  unfolding parse_result_fold fold_collects by (simp_all add: empty_result_def)

lemma split_chr_single: "c \<notin> set s \<Longrightarrow> split_chr c s = [s]"
  by (induction s) auto

lemma split_chr_append:
  "c \<notin> set a \<Longrightarrow> split_chr c (a @ c # b) = a # split_chr c b"
  by (induction a) auto

lemma wal_line_no_newline: "CHR 0x0A \<notin> set sample_wal_line"
  by (simp add: sample_wal_line_def)

lemma wal_line_alone:
  "fst (process_line epoch ''test.log'' sample_wal_line r) =
     r\<lparr>walJobs := walJobs r @ [the (parseWalJobEntry epoch sample_wal_line ''test.log'')]\<rparr>"
  by (simp add: process_line_def wal_line_not_query wal_line_record)

text \<open>
  Claim C3. For one line the loop calls the extractors in the fixed order query, WAL
  apply, WAL commit, partition close, pgwire connection, system event, and stops at the
  first that returns a record: the extractors called are those up to and including the
  first success (all six when none succeeds). The record of that first success is
  appended to its collection and the other five collections are left as they were, so
  each collection grows by one exactly when its extractor is the first to succeed and the
  total grows by at most one per line. The parser runs this step once on every line of
  the text, in the order of the lines, starting from six empty collections: each
  collection it returns holds, in line order, the records that the lines yield for it
  when processed alone, and a file yields at most as many records as it has lines.
\<close>

theorem one_record_per_line:
  "snd (process_line newDate fname line r) =
     takeWhile (\<lambda>k. \<not> matches newDate fname line k) priority_order @
     (case find (matches newDate fname line) priority_order of None \<Rightarrow> [] | Some k \<Rightarrow> [k]) \<and>
   process_line newDate fname line r =
     (case find (matches newDate fname line) priority_order of
        None \<Rightarrow> (r, priority_order)
      | Some Query \<Rightarrow>
          (r\<lparr>queries := queries r @ [the (parseQueryEntry newDate line fname)]\<rparr>, [Query])
      | Some WalApply \<Rightarrow>
          (r\<lparr>walJobs := walJobs r @ [the (parseWalJobEntry newDate line fname)]\<rparr>,
           [Query, WalApply])
      | Some WalCommit \<Rightarrow>
          (r\<lparr>walCommits := walCommits r @ [the (parseWalCommitEntry newDate line fname)]\<rparr>,
           [Query, WalApply, WalCommit])
      | Some PartitionClose \<Rightarrow>
          (r\<lparr>partitionClosings :=
               partitionClosings r @ [the (parsePartitionClosingEntry newDate line fname)]\<rparr>,
           [Query, WalApply, WalCommit, PartitionClose])
      | Some PgwireConnection \<Rightarrow>
          (r\<lparr>pgwireConnections :=
               pgwireConnections r @ [the (parsePgwireConnection newDate line fname)]\<rparr>,
           [Query, WalApply, WalCommit, PartitionClose, PgwireConnection])
      | Some SystemEvent \<Rightarrow>
          (r\<lparr>systemEvents := systemEvents r @ [the (parseSystemEvent newDate line fname)]\<rparr>,
           priority_order)) \<and>
   (\<forall>k. size_of k (fst (process_line newDate fname line r)) =
      size_of k r + (if find (matches newDate fname line) priority_order = Some k then 1 else 0)) \<and>
   total_records (fst (process_line newDate fname line r)) \<le> total_records r + 1 \<and>
   total_records (fst (parseQuestDBLog newDate logContent fname cb)) \<le>
     length (split_chr CHR 0x0A logContent) \<and>
   fst (parseQuestDBLog newDate logContent fname cb) =
     foldl (\<lambda>acc l. fst (process_line newDate fname l acc)) empty_result
       (split_chr CHR 0x0A logContent) \<and>
   queries (fst (parseQuestDBLog newDate logContent fname cb)) =
     concat (map (\<lambda>l. queries (line_records newDate fname l))
       (split_chr CHR 0x0A logContent)) \<and>
   walJobs (fst (parseQuestDBLog newDate logContent fname cb)) =
     concat (map (\<lambda>l. walJobs (line_records newDate fname l))
       (split_chr CHR 0x0A logContent)) \<and>
   walCommits (fst (parseQuestDBLog newDate logContent fname cb)) =
     concat (map (\<lambda>l. walCommits (line_records newDate fname l))
       (split_chr CHR 0x0A logContent)) \<and>
   partitionClosings (fst (parseQuestDBLog newDate logContent fname cb)) =
     concat (map (\<lambda>l. partitionClosings (line_records newDate fname l))
       (split_chr CHR 0x0A logContent)) \<and>
   pgwireConnections (fst (parseQuestDBLog newDate logContent fname cb)) =
     concat (map (\<lambda>l. pgwireConnections (line_records newDate fname l))
       (split_chr CHR 0x0A logContent)) \<and>
   systemEvents (fst (parseQuestDBLog newDate logContent fname cb)) =
     concat (map (\<lambda>l. systemEvents (line_records newDate fname l))
       (split_chr CHR 0x0A logContent)) \<and>
   total_records (line_records newDate fname line) \<le> 1"
proof (intro conjI allI)
  show "total_records (fst (parseQuestDBLog newDate logContent fname cb)) \<le>
     length (split_chr CHR 0x0A logContent)"
    unfolding parseQuestDBLog_def
    using parse_lines_total [of newDate fname cb _ 0 _ empty_result "[]"]
    by (simp add: empty_total)
  show "total_records (line_records newDate fname line) \<le> 1"
    unfolding line_records_def
    using total_step [of newDate fname line empty_result] by (simp add: empty_total)
qed (rule tried_prefix process_line_outcome size_step total_step parse_result_fold
      parse_result_collects)+

theorem one_record_per_line_witness:
  "find (matches epoch ''test.log'' sample_wal_line) priority_order = Some WalApply \<and>
   snd (process_line epoch ''test.log'' sample_wal_line empty_result) = [Query, WalApply] \<and>
   size_of WalApply (fst (process_line epoch ''test.log'' sample_wal_line empty_result)) = 1 \<and>
   size_of SystemEvent (fst (process_line epoch ''test.log'' sample_wal_line empty_result)) = 0 \<and>
   total_records (fst (process_line epoch ''test.log'' sample_wal_line empty_result)) \<le> 1 \<and>
   split_chr CHR 0x0A (sample_wal_line @ CHR 0x0A # sample_wal_line) =
     [sample_wal_line, sample_wal_line] \<and>
   length (walJobs (fst (parseQuestDBLog epoch (sample_wal_line @ CHR 0x0A # sample_wal_line)
     ''test.log'' False))) = 2 \<and>
   queries (fst (parseQuestDBLog epoch (sample_wal_line @ CHR 0x0A # sample_wal_line)
     ''test.log'' False)) = [] \<and>
   map wj_table (walJobs (fst (parseQuestDBLog epoch
     (sample_wal_line @ CHR 0x0A # sample_wal_line) ''test.log'' False))) =
     [''trades'', ''trades'']"
proof -
  have f: "find (matches epoch ''test.log'' sample_wal_line) priority_order = Some WalApply"
    by (simp add: priority_order_def matches_def wal_line_not_query wal_line_record)
  have t: "takeWhile (\<lambda>k. \<not> matches epoch ''test.log'' sample_wal_line k) priority_order = [Query]"
    by (simp add: priority_order_def matches_def wal_line_not_query wal_line_record)
  have sp: "split_chr CHR 0x0A (sample_wal_line @ CHR 0x0A # sample_wal_line) =
     [sample_wal_line, sample_wal_line]"
    by (simp only: split_chr_append [OF wal_line_no_newline]
        split_chr_single [OF wal_line_no_newline])
  note w = one_record_per_line [of epoch "''test.log''" sample_wal_line empty_result
      "sample_wal_line @ CHR 0x0A # sample_wal_line" False]
  from w have c1: "snd (process_line epoch ''test.log'' sample_wal_line empty_result) =
     takeWhile (\<lambda>k. \<not> matches epoch ''test.log'' sample_wal_line k) priority_order @
     (case find (matches epoch ''test.log'' sample_wal_line) priority_order of
        None \<Rightarrow> [] | Some k \<Rightarrow> [k])"
    by (rule conjunct1)
  from w have c3: "\<forall>k. size_of k (fst (process_line epoch ''test.log'' sample_wal_line empty_result)) =
      size_of k empty_result +
      (if find (matches epoch ''test.log'' sample_wal_line) priority_order = Some k then 1 else 0)"
    by blast
  from w have c4: "total_records (fst (process_line epoch ''test.log'' sample_wal_line empty_result))
      \<le> total_records empty_result + 1"
    by blast
  from w have c6: "fst (parseQuestDBLog epoch (sample_wal_line @ CHR 0x0A # sample_wal_line)
        ''test.log'' False) =
     foldl (\<lambda>acc l. fst (process_line epoch ''test.log'' l acc)) empty_result
       (split_chr CHR 0x0A (sample_wal_line @ CHR 0x0A # sample_wal_line))"
    by blast
  have e: "size_of WalApply empty_result = 0" "size_of SystemEvent empty_result = 0"
    by (simp_all add: size_of_def empty_result_def)
  have p: "fst (parseQuestDBLog epoch (sample_wal_line @ CHR 0x0A # sample_wal_line)
        ''test.log'' False) =
     empty_result\<lparr>walJobs :=
       [the (parseWalJobEntry epoch sample_wal_line ''test.log''),
        the (parseWalJobEntry epoch sample_wal_line ''test.log'')]\<rparr>"
    unfolding c6 sp by (simp add: wal_line_alone empty_result_def)
  have a: "size_of WalApply (fst (process_line epoch ''test.log'' sample_wal_line empty_result)) = 1"
    "size_of SystemEvent (fst (process_line epoch ''test.log'' sample_wal_line empty_result)) = 0"
    using c3 [rule_format, of WalApply] c3 [rule_format, of SystemEvent] unfolding f e by simp_all
  have b: "snd (process_line epoch ''test.log'' sample_wal_line empty_result) = [Query, WalApply]"
    using c1 unfolding f t by simp
  have c: "total_records (fst (process_line epoch ''test.log'' sample_wal_line empty_result)) \<le> 1"
    using c4 unfolding empty_total by simp
  have q: "length (walJobs (fst (parseQuestDBLog epoch
        (sample_wal_line @ CHR 0x0A # sample_wal_line) ''test.log'' False))) = 2"
    "queries (fst (parseQuestDBLog epoch (sample_wal_line @ CHR 0x0A # sample_wal_line)
        ''test.log'' False)) = []"
    "map wj_table (walJobs (fst (parseQuestDBLog epoch
        (sample_wal_line @ CHR 0x0A # sample_wal_line) ''test.log'' False))) =
     [''trades'', ''trades'']"
    unfolding p by (simp_all add: empty_result_def wal_line_record)
  from f b a c sp q show ?thesis by (intro conjI)
qed

text \<open>
  A line on which an extractor's pattern matches but which yields no record is passed on
  to the later extractors: a query line with the marker \<open>exe\<close> that also carries the
  connection-limit phrase is tried by all six and ends up as a system event.
\<close>

lemma exe_line_falls_through:
  "re_test False PATTERNS_query exe_limit_line \<and>
   (case process_line epoch ''test.log'' exe_limit_line empty_result of
      (r, tried) \<Rightarrow> (length (queries r), map errorType (systemEvents r), tried)) =
   (0, [''Connection Limit''], priority_order)"
  by code_simp

text \<open>
  Claim C9. With a progress callback the parser calls it exactly at the line indices
  \<open>i\<close> with \<open>i mod 1000 = 0\<close>, in ascending order and starting with line 0, each time
  with the index and the number of lines of the file; these are
  \<open>ceil(totalLines / 1000)\<close> calls. Without a callback there is no call.
\<close>

theorem progress_cadence:
  "snd (parseQuestDBLog newDate logContent fname True) =
     map (\<lambda>i. (i, length (split_chr CHR 0x0A logContent)))
       (filter (\<lambda>i. i mod 1000 = 0) [0..<length (split_chr CHR 0x0A logContent)]) \<and>
   length (snd (parseQuestDBLog newDate logContent fname True)) =
     (length (split_chr CHR 0x0A logContent) + 999) div 1000 \<and>
   int (length (snd (parseQuestDBLog newDate logContent fname True))) =
     \<lceil>(of_nat (length (split_chr CHR 0x0A logContent)) :: rat) / 1000\<rceil> \<and>
   snd (parseQuestDBLog newDate logContent fname False) = []"
proof -
  let ?n = "length (split_chr CHR 0x0A logContent)"
  have a: "snd (parseQuestDBLog newDate logContent fname True) =
     map (\<lambda>i. (i, ?n)) (filter (\<lambda>i. i mod 1000 = 0) [0..<?n])"
    unfolding parseQuestDBLog_def parse_lines_calls by simp
  have b: "length (snd (parseQuestDBLog newDate logContent fname True)) = (?n + 999) div 1000"
    unfolding a by (simp add: filter_mod_count)
  have c: "int (length (snd (parseQuestDBLog newDate logContent fname True))) =
     \<lceil>(of_nat ?n :: rat) / 1000\<rceil>"
    unfolding b ceil_div_1000 ..
  have d: "snd (parseQuestDBLog newDate logContent fname False) = []"
    unfolding parseQuestDBLog_def parse_lines_calls by simp
  show ?thesis using a b c d by blast
qed

theorem progress_cadence_witness:
  "length (split_chr CHR 0x0A (replicate 1000 CHR 0x0A)) = 1001 \<and>
   length (snd (parseQuestDBLog epoch (replicate 1000 CHR 0x0A) ''test.log'' True)) = 2 \<and>
   snd (parseQuestDBLog epoch (replicate 1000 CHR 0x0A) ''test.log'' False) = []"
proof -
  have l: "length (split_chr CHR 0x0A (replicate 1000 CHR 0x0A)) = 1001"
    by (simp add: length_split_chr)
  note w = progress_cadence [of epoch "replicate 1000 CHR 0x0A" "''test.log''"]
  from w have a: "length (snd (parseQuestDBLog epoch (replicate 1000 CHR 0x0A) ''test.log'' True)) =
     (length (split_chr CHR 0x0A (replicate 1000 CHR 0x0A)) + 999) div 1000"
    by blast
  from w have b: "snd (parseQuestDBLog epoch (replicate 1000 CHR 0x0A) ''test.log'' False) = []"
    by blast
  show ?thesis using a b unfolding l by simp
qed

section \<open>Percentiles and histogram bins\<close>

text \<open>
  \<open>to_double\<close> rounds to a nearest number with a significand of 53 bits: the result is
  within half a unit of the last place of its argument, whole numbers below \<open>2^53\<close> are
  kept, and rounding does not step over such a whole number.
\<close>

lemma pow2_pos: "0 < pow2 e"
  by (simp add: pow2_def)

lemma pow2_mono: "a \<le> b \<Longrightarrow> pow2 a \<le> pow2 b"
proof -
  assume ab: "a \<le> b"
  have p: "pow2 e = 2 powi e" for e
    by (simp add: pow2_def power_int_def field_simps)
  show ?thesis unfolding p using ab by (simp add: power_int_increasing)
qed

lemma expo_bounds:
  assumes "0 < x"
  shows "pow2 (expo x) \<le> x" "x < pow2 (expo x + 1)"
proof -
  show "pow2 (expo x) \<le> x"
  proof (cases "1 \<le> x")
    case True
    then have k: "0 < \<lfloor>x\<rfloor>" by simp
    from bitlen_bounds [OF k] have "2 ^ nat (bitlen \<lfloor>x\<rfloor> - 1) \<le> \<lfloor>x\<rfloor>" by simp
    then have "(of_int (2 ^ nat (bitlen \<lfloor>x\<rfloor> - 1)) :: rat) \<le> of_int \<lfloor>x\<rfloor>"
      by (simp only: of_int_le_iff)
    also have "\<dots> \<le> x" by simp
    finally have "(2::rat) ^ nat (bitlen \<lfloor>x\<rfloor> - 1) \<le> x" by simp
    moreover have "0 \<le> bitlen \<lfloor>x\<rfloor> - 1" using k by (simp add: bitlen_alt_def)
    ultimately show ?thesis using True by (simp add: expo_def pow2_def)
  next
    case False
    let ?c = "\<lceil>1 / x\<rceil>"
    have y: "1 < 1 / x" using False assms by simp
    then have c: "0 < ?c - 1" by (simp add: less_ceiling_iff)
    from bitlen_bounds [OF c] have "?c - 1 < 2 ^ nat (bitlen (?c - 1))" by simp
    then have "?c \<le> 2 ^ nat (bitlen (?c - 1))" by simp
    then have "(of_int ?c :: rat) \<le> of_int (2 ^ nat (bitlen (?c - 1)))"
      by (simp only: of_int_le_iff)
    then have "(of_int ?c :: rat) \<le> 2 ^ nat (bitlen (?c - 1))" by simp
    moreover have "1 / x \<le> of_int ?c" by (rule le_of_int_ceiling)
    ultimately have "1 / x \<le> 2 ^ nat (bitlen (?c - 1))" by (rule order_trans [rotated])
    then have "1 \<le> 2 ^ nat (bitlen (?c - 1)) * x"
      using assms by (simp add: pos_divide_le_eq)
    then have "1 / 2 ^ nat (bitlen (?c - 1)) \<le> x"
      by (simp add: pos_divide_le_eq mult.commute)
    moreover have "0 < bitlen (?c - 1)" using c by (simp add: bitlen_alt_def)
    ultimately show ?thesis using False by (simp add: expo_def pow2_def)
  qed
  show "x < pow2 (expo x + 1)"
  proof (cases "1 \<le> x")
    case True
    then have k: "0 < \<lfloor>x\<rfloor>" by simp
    from bitlen_bounds [OF k] have "\<lfloor>x\<rfloor> + 1 \<le> 2 ^ nat (bitlen \<lfloor>x\<rfloor>)" by simp
    then have "(of_int (\<lfloor>x\<rfloor> + 1) :: rat) \<le> of_int (2 ^ nat (bitlen \<lfloor>x\<rfloor>))"
      by (simp only: of_int_le_iff)
    moreover have "x < of_int (\<lfloor>x\<rfloor> + 1)" using floor_correct [of x] by simp
    ultimately have "x < 2 ^ nat (bitlen \<lfloor>x\<rfloor>)" by simp
    moreover have "0 \<le> bitlen \<lfloor>x\<rfloor>" by (rule bitlen_nonneg)
    ultimately show ?thesis using True by (simp add: expo_def pow2_def)
  next
    case False
    let ?c = "\<lceil>1 / x\<rceil>"
    let ?j = "bitlen (?c - 1)"
    have y: "1 < 1 / x" using False assms by simp
    then have c: "0 < ?c - 1" by (simp add: less_ceiling_iff)
    have j: "0 < ?j" using c by (simp add: bitlen_alt_def)
    from bitlen_bounds [OF c] have "2 ^ nat (?j - 1) \<le> ?c - 1" by simp
    then have "(of_int (2 ^ nat (?j - 1)) :: rat) \<le> of_int (?c - 1)"
      by (simp only: of_int_le_iff)
    moreover have "of_int (?c - 1) < 1 / x" using ceiling_correct [of "1 / x"] by simp
    ultimately have "(2::rat) ^ nat (?j - 1) < 1 / x" by simp
    then have "2 ^ nat (?j - 1) * x < 1" using assms by (simp add: pos_less_divide_eq)
    then have lt: "x < 1 / 2 ^ nat (?j - 1)"
      by (simp add: pos_less_divide_eq mult.commute)
    show ?thesis
    proof (cases "?j = 1")
      case True
      with lt False show ?thesis by (simp add: expo_def pow2_def)
    next
      case F: False
      then have "- ?j + 1 < 0" using j by simp
      moreover have "nat (- (- ?j + 1)) = nat (?j - 1)" by simp
      ultimately show ?thesis using lt False by (simp add: expo_def pow2_def)
    qed
  qed
qed

lemma round_half_even_le:
  assumes "y \<le> of_int z"
  shows "round_half_even y \<le> z"
proof (cases "y = of_int z")
  case True
  then show ?thesis by (simp add: round_half_even_def)
next
  case False
  with assms have "y < of_int z" by simp
  then have "\<lfloor>y\<rfloor> < z" by (simp add: floor_less_iff)
  then have "\<lfloor>y\<rfloor> + 1 \<le> z" by simp
  then show ?thesis by (simp add: round_half_even_def)
qed

lemma round_half_even_int: "round_half_even (of_int k) = k"
  by (simp add: round_half_even_def)

lemma pow2_neg_inverse:
  assumes "e \<le> 0"
  shows "pow2 e * 2 ^ nat (- e) = 1" "x / pow2 e = x * 2 ^ nat (- e)"
  using assms by (cases "e = 0"; simp add: pow2_def)+

lemma expo_small:
  assumes "0 < x" "x < 2 ^ 53"
  shows "expo x - 52 \<le> 0"
proof (rule ccontr)
  assume "\<not> expo x - 52 \<le> 0"
  then have "53 \<le> expo x" by simp
  then have "pow2 53 \<le> pow2 (expo x)" by (rule pow2_mono)
  also have "\<dots> \<le> x" by (rule expo_bounds(1) [OF assms(1)])
  finally show False using assms(2) by (simp add: pow2_def)
qed

lemma to_double_le_int:
  assumes x: "x \<le> of_int k" and k: "0 \<le> k" "k < 2 ^ 53"
  shows "to_double x \<le> of_int k"
proof (cases "0 < x")
  case True
  let ?e = "expo \<bar>x\<bar> - 52"
  let ?N = "nat (- ?e)"
  have ax: "\<bar>x\<bar> = x" using True by simp
  have "x < 2 ^ 53"
  proof -
    have "(of_int k :: rat) < of_int (2 ^ 53)" using k(2) by (simp only: of_int_less_iff)
    with x show ?thesis by simp
  qed
  then have e: "?e \<le> 0" unfolding ax by (rule expo_small [OF True])
  have "x / pow2 ?e = x * 2 ^ ?N" by (rule pow2_neg_inverse(2) [OF e])
  also have "\<dots> \<le> of_int k * 2 ^ ?N" using x by (simp add: mult_right_mono)
  also have "\<dots> = of_int (k * 2 ^ ?N)" by simp
  finally have "round_half_even (x / pow2 ?e) \<le> k * 2 ^ ?N" by (rule round_half_even_le)
  then have "(of_int (round_half_even (x / pow2 ?e)) :: rat) \<le> of_int (k * 2 ^ ?N)"
    by (simp only: of_int_le_iff)
  then have "of_int (round_half_even (x / pow2 ?e)) * pow2 ?e \<le> of_int (k * 2 ^ ?N) * pow2 ?e"
    using pow2_pos [of ?e] by (simp add: mult_right_mono)
  also have "of_int (k * 2 ^ ?N) * pow2 ?e = of_int k * (pow2 ?e * 2 ^ ?N)"
    by (simp add: mult.commute mult.left_commute)
  also have "\<dots> = of_int k" unfolding pow2_neg_inverse(1) [OF e] by simp
  finally show ?thesis using True by (simp add: to_double_def)
next
  case False
  show ?thesis
  proof (cases "x = 0")
    case True
    then show ?thesis using k(1) by (simp add: to_double_def)
  next
    case nz: False
    let ?e = "expo \<bar>x\<bar> - 52"
    have "x / pow2 ?e \<le> of_int 0"
      using False pow2_pos [of ?e] by (simp add: divide_nonpos_pos)
    then have "round_half_even (x / pow2 ?e) \<le> 0" by (rule round_half_even_le)
    then have "(of_int (round_half_even (x / pow2 ?e)) :: rat) \<le> 0" by simp
    then have "of_int (round_half_even (x / pow2 ?e)) * pow2 ?e \<le> 0"
      using pow2_pos [of ?e] by (simp add: mult_le_0_iff)
    also have "\<dots> \<le> of_int k" using k(1) by simp
    finally show ?thesis using nz by (simp add: to_double_def)
  qed
qed

lemma to_double_int:
  assumes k: "0 \<le> k" "k < 2 ^ 53"
  shows "to_double (of_int k) = of_int k"
proof (cases "k = 0")
  case True
  then show ?thesis by (simp add: to_double_def)
next
  case False
  let ?x = "of_int k :: rat"
  let ?e = "expo \<bar>?x\<bar> - 52"
  let ?N = "nat (- ?e)"
  have pos: "0 < ?x" using k(1) False by simp
  have ax: "\<bar>?x\<bar> = ?x" using pos by simp
  have "?x < of_int (2 ^ 53)" using k(2) by (simp only: of_int_less_iff)
  then have "?x < 2 ^ 53" by simp
  then have e: "?e \<le> 0" unfolding ax by (rule expo_small [OF pos])
  have "?x / pow2 ?e = ?x * 2 ^ ?N" by (rule pow2_neg_inverse(2) [OF e])
  also have "\<dots> = of_int (k * 2 ^ ?N)" by simp
  finally have "round_half_even (?x / pow2 ?e) = k * 2 ^ ?N"
    by (simp only: round_half_even_int)
  then have "of_int (round_half_even (?x / pow2 ?e)) * pow2 ?e = of_int (k * 2 ^ ?N) * pow2 ?e"
    by simp
  also have "\<dots> = of_int k * (pow2 ?e * 2 ^ ?N)" by (simp add: mult.commute mult.left_commute)
  also have "\<dots> = of_int k" unfolding pow2_neg_inverse(1) [OF e] by simp
  finally show ?thesis using False by (simp add: to_double_def)
qed

lemma round_half_even_near: "\<bar>of_int (round_half_even y) - y\<bar> \<le> 1 / 2"
proof -
  define f where "f = \<lfloor>y\<rfloor>"
  have "of_int f \<le> y" "y < of_int f + 1" using floor_correct [of y] by (simp_all add: f_def)
  then show ?thesis unfolding round_half_even_def f_def [symmetric]
    by (simp add: abs_if)
qed

lemma to_double_error:
  "\<bar>to_double x - x\<bar> \<le> pow2 (expo \<bar>x\<bar> - 52) / 2"
proof (cases "x = 0")
  case True
  then show ?thesis using pow2_pos [of "expo \<bar>x\<bar> - 52"] by (simp add: to_double_def)
next
  case False
  let ?u = "pow2 (expo \<bar>x\<bar> - 52)"
  have u: "0 < ?u" by (rule pow2_pos)
  have "to_double x - x = (of_int (round_half_even (x / ?u)) - x / ?u) * ?u"
    using False u by (simp add: to_double_def algebra_simps)
  then have "\<bar>to_double x - x\<bar> = \<bar>of_int (round_half_even (x / ?u)) - x / ?u\<bar> * ?u"
    using u by (simp add: abs_mult)
  also have "\<dots> \<le> (1 / 2) * ?u"
    using round_half_even_near [of "x / ?u"] u by (intro mult_right_mono) simp_all
  finally show ?thesis by simp
qed

lemma percentile_index_bound:
  fixes p :: rat
  assumes p: "p \<le> 100" and n: "n < 2 ^ 53"
  shows "\<lceil>to_double (to_double (p / 100) * of_nat n)\<rceil> \<le> int n"
proof -
  have "p / 100 \<le> of_int 1" using p by simp
  then have q: "to_double (p / 100) \<le> of_int 1" by (rule to_double_le_int) simp_all
  then have "to_double (p / 100) * of_nat n \<le> 1 * (of_nat n :: rat)"
    by (intro mult_right_mono) simp_all
  then have le: "to_double (p / 100) * of_nat n \<le> of_int (int n)" by simp
  have "int n < 2 ^ 53" using n by (metis of_nat_less_iff of_nat_numeral of_nat_power)
  with le have "to_double (to_double (p / 100) * of_nat n) \<le> of_int (int n)"
    by (intro to_double_le_int) simp_all
  then show ?thesis by (simp only: ceiling_le_iff)
qed

lemma percentile_100:
  assumes n: "n < 2 ^ 53"
  shows "to_double (to_double (100 / 100) * of_nat n) = of_nat n"
proof -
  have one: "to_double (100 / 100) = 1" using to_double_int [of 1] by simp
  have "int n < 2 ^ 53" using n by (metis of_nat_less_iff of_nat_numeral of_nat_power)
  then have "to_double (of_int (int n)) = of_int (int n)" by (intro to_double_int) simp_all
  then show ?thesis unfolding one by simp
qed

lemma pow2_powi: "pow2 e = 2 powi e"
  by (simp add: pow2_def power_int_def field_simps)

lemma pow2_shift: "pow2 (e - 52) = pow2 e / 2 ^ 52"
proof -
  have "(2::rat) powi (e - 52) = 2 powi e / 2 powi 52"
    by (simp add: power_int_diff)
  then show ?thesis unfolding pow2_powi by simp
qed

lemma to_double_relative:
  "\<bar>to_double x - x\<bar> \<le> \<bar>x\<bar> / 2 ^ 53"
proof (cases "x = 0")
  case True
  then show ?thesis by (simp add: to_double_def)
next
  case False
  then have "0 < \<bar>x\<bar>" by simp
  from expo_bounds(1) [OF this] have "pow2 (expo \<bar>x\<bar>) \<le> \<bar>x\<bar>" .
  then have "pow2 (expo \<bar>x\<bar> - 52) / 2 \<le> \<bar>x\<bar> / 2 ^ 53"
    unfolding pow2_shift by simp
  with to_double_error [of x] show ?thesis by (rule order_trans)
qed

lemma ceiling_near:
  fixes x y :: rat
  assumes "\<bar>x - y\<bar> < 1"
  shows "\<bar>\<lceil>x\<rceil> - \<lceil>y\<rceil>\<bar> \<le> 1"
proof -
  have "x < y + 1" "y < x + 1" using assms by (simp_all add: abs_less_iff)
  then have "\<lceil>x\<rceil> \<le> \<lceil>y\<rceil> + 1" "\<lceil>y\<rceil> \<le> \<lceil>x\<rceil> + 1"
    by (metis ceiling_add_one ceiling_mono less_imp_le)+
  then show ?thesis by simp
qed

lemma double_product_near:
  fixes p :: rat
  assumes p: "0 \<le> p" "p \<le> 100" and n: "n < 2 ^ 51"
  shows "\<bar>to_double (to_double (p / 100) * of_nat n) - (p / 100) * of_nat n\<bar> < 1"
proof -
  let ?q = "p / 100"
  let ?a = "to_double ?q"
  let ?N = "of_nat n :: rat"
  have q: "0 \<le> ?q" "?q \<le> 1" using p by simp_all
  have N: "0 \<le> ?N" by simp
  have "int n < 2 ^ 51" using n by (metis of_nat_less_iff of_nat_numeral of_nat_power)
  then have "(of_int (int n) :: rat) < of_int (2 ^ 51)" by (simp only: of_int_less_iff)
  then have N51: "?N < 2 ^ 51" by simp
  have e1: "\<bar>?a - ?q\<bar> \<le> 1 / 2 ^ 53"
  proof -
    have "\<bar>?a - ?q\<bar> \<le> \<bar>?q\<bar> / 2 ^ 53" by (rule to_double_relative)
    also have "\<dots> \<le> 1 / 2 ^ 53" using q by (simp add: divide_right_mono)
    finally show ?thesis .
  qed
  have a1: "\<bar>?a\<bar> \<le> 2"
  proof -
    have "\<bar>?a\<bar> \<le> \<bar>?a - ?q\<bar> + \<bar>?q\<bar>" by simp
    also have "\<dots> \<le> 1 / 2 ^ 53 + 1" using e1 q by simp
    also have "\<dots> \<le> 2" by simp
    finally show ?thesis .
  qed
  have e2: "\<bar>?a * ?N - ?q * ?N\<bar> \<le> ?N / 2 ^ 53"
  proof -
    have "?a * ?N - ?q * ?N = (?a - ?q) * ?N" by (simp only: left_diff_distrib)
    then have "\<bar>?a * ?N - ?q * ?N\<bar> = \<bar>?a - ?q\<bar> * \<bar>?N\<bar>" by (simp only: abs_mult)
    then have "\<bar>?a * ?N - ?q * ?N\<bar> = \<bar>?a - ?q\<bar> * ?N" by (simp only: abs_of_nat)
    also have "\<dots> \<le> (1 / 2 ^ 53) * ?N" using e1 N by (rule mult_right_mono)
    finally show ?thesis by simp
  qed
  have e3: "\<bar>to_double (?a * ?N) - ?a * ?N\<bar> \<le> 2 * ?N / 2 ^ 53"
  proof -
    have "\<bar>to_double (?a * ?N) - ?a * ?N\<bar> \<le> \<bar>?a * ?N\<bar> / 2 ^ 53"
      by (rule to_double_relative)
    also have "\<bar>?a * ?N\<bar> = \<bar>?a\<bar> * ?N" by (simp add: abs_mult)
    also have "\<bar>?a\<bar> * ?N / 2 ^ 53 \<le> 2 * ?N / 2 ^ 53"
      using a1 N by (intro divide_right_mono mult_right_mono) simp_all
    finally show ?thesis .
  qed
  have "\<bar>to_double (?a * ?N) - ?q * ?N\<bar> \<le>
      \<bar>to_double (?a * ?N) - ?a * ?N\<bar> + \<bar>?a * ?N - ?q * ?N\<bar>"
    by simp
  also have "\<dots> \<le> 2 * ?N / 2 ^ 53 + ?N / 2 ^ 53" using e2 e3 by (rule add_mono [rotated])
  also have "\<dots> = 3 * ?N / 2 ^ 53" by simp
  also have "\<dots> < 1" using N51 by simp
  finally show ?thesis .
qed

lemma double_rank_near:
  fixes p :: rat
  assumes p: "0 \<le> p" "p \<le> 100" and n: "length xs < 2 ^ 51"
  shows "\<bar>int (nat (max 0 (min (int (length xs) - 1)
            (\<lceil>to_double (to_double (p / 100) * of_nat (length xs))\<rceil> - 1)))) -
          int (exact_rank xs p)\<bar> \<le> 1"
proof -
  let ?d = "\<lceil>to_double (to_double (p / 100) * of_nat (length xs))\<rceil>"
  let ?x = "\<lceil>(p / 100) * of_nat (length xs)\<rceil>"
  from ceiling_near [OF double_product_near [OF p n]]
  have "\<bar>?d - ?x\<bar> \<le> 1" .
  then show ?thesis unfolding exact_rank_def by (simp add: abs_le_iff) linarith
qed

lemma doubles_28_25: "\<lceil>to_double (to_double (28 / 100) * 25)\<rceil> = 8"
  by code_simp

lemma doubles_half_10: "\<lceil>to_double (to_double (50 / 100) * 10)\<rceil> = 5"
  by code_simp

lemma doubles_90_10: "\<lceil>to_double (to_double (90 / 100) * 10)\<rceil> = 9"
  by code_simp

text \<open>
  Claim C4, as the code has it. \<open>calculatePercentile\<close> returns 0 for an empty sample,
  whatever the percentile. For a sample with one value it returns that value for every
  percentile up to 100. For a non-empty sample of length \<open>n\<close> (an array holds fewer than
  \<open>2^32\<close> values) and a percentile \<open>p \<le> 100\<close> it returns the element at the index
  \<open>ceil(p / 100 * n) - 1\<close> clamped to \<open>[0, n - 1]\<close>, where the quotient and the product
  are the rounded ones of double arithmetic. When neither of the two operations rounds
  this is the nearest rank of exact arithmetic; in general, for \<open>0 \<le> p \<le> 100\<close>, the
  index is at most one away from it. For \<open>p = 100\<close> it is the last element.
\<close>

theorem percentile_nearest_rank:
  "calculatePercentile [] p = Some 0 \<and>
   (p \<le> 100 \<longrightarrow> calculatePercentile [v] p = Some v) \<and>
   (xs \<noteq> [] \<and> p \<le> 100 \<and> length xs < 2 ^ 53 \<longrightarrow>
      calculatePercentile xs p =
        Some (xs ! nat (max 0 (min (int (length xs) - 1)
           (\<lceil>to_double (to_double (p / 100) * of_nat (length xs))\<rceil> - 1))))) \<and>
   (xs \<noteq> [] \<and> p \<le> 100 \<and> length xs < 2 ^ 53 \<and> to_double (p / 100) = p / 100 \<and>
    to_double ((p / 100) * of_nat (length xs)) = (p / 100) * of_nat (length xs) \<longrightarrow>
      calculatePercentile xs p = Some (xs ! exact_rank xs p)) \<and>
   (xs \<noteq> [] \<and> 0 \<le> p \<and> p \<le> 100 \<and> length xs < 2 ^ 51 \<longrightarrow>
      (\<exists>i < length xs. calculatePercentile xs p = Some (xs ! i) \<and>
         \<bar>int i - int (exact_rank xs p)\<bar> \<le> 1)) \<and>
   (xs \<noteq> [] \<and> length xs < 2 ^ 53 \<longrightarrow>
      calculatePercentile xs 100 = Some (xs ! (length xs - 1)))"
proof (intro conjI impI)
  show "calculatePercentile [] p = Some 0" by (simp add: calculatePercentile_def)
next
  assume p: "p \<le> 100"
  from percentile_index_bound [OF p, of 1]
  have "\<lceil>to_double (to_double (p / 100))\<rceil> - 1 < 1" by simp
  then have "nat (max 0 (\<lceil>to_double (to_double (p / 100))\<rceil> - 1)) = 0" by simp
  then show "calculatePercentile [v] p = Some v"
    by (simp add: calculatePercentile_def Let_def)
next
  assume a: "xs \<noteq> [] \<and> p \<le> 100 \<and> length xs < 2 ^ 53"
  let ?i = "\<lceil>to_double (to_double (p / 100) * of_nat (length xs))\<rceil> - 1"
  from a percentile_index_bound [of p "length xs"] have b: "?i < int (length xs)" by simp
  then have m: "min (int (length xs) - 1) ?i = ?i" by simp
  from b a have "nat (max 0 ?i) < length xs" by (cases xs) auto
  then show "calculatePercentile xs p =
        Some (xs ! nat (max 0 (min (int (length xs) - 1) ?i)))"
    using a unfolding m by (simp add: calculatePercentile_def Let_def)
next
  assume a: "xs \<noteq> [] \<and> p \<le> 100 \<and> length xs < 2 ^ 53 \<and> to_double (p / 100) = p / 100 \<and>
    to_double ((p / 100) * of_nat (length xs)) = (p / 100) * of_nat (length xs)"
  let ?i = "\<lceil>(p / 100) * of_nat (length xs)\<rceil> - 1"
  from a have a1: "to_double (p / 100) = p / 100"
    and a2: "to_double ((p / 100) * of_nat (length xs)) = (p / 100) * of_nat (length xs)"
    and a0: "xs \<noteq> []" and p: "p \<le> 100" and n: "length xs < 2 ^ 53"
    by blast+
  let ?d = "\<lceil>to_double (to_double (p / 100) * of_nat (length xs))\<rceil> - 1"
  have e: "?d = ?i" unfolding a1 a2 ..
  from percentile_index_bound [OF p n] have b: "?d < int (length xs)" by simp
  from b a0 have lt: "nat (max 0 ?d) < length xs" by (cases xs) auto
  have c: "calculatePercentile xs p = Some (xs ! nat (max 0 ?d))"
    using lt a0 by (simp add: calculatePercentile_def Let_def)
  have m: "min (int (length xs) - 1) ?i = ?i" using b unfolding e by simp
  show "calculatePercentile xs p = Some (xs ! exact_rank xs p)"
    unfolding c exact_rank_def m e ..
next
  assume a: "xs \<noteq> [] \<and> 0 \<le> p \<and> p \<le> 100 \<and> length xs < 2 ^ 51"
  then have a0: "xs \<noteq> []" and p0: "0 \<le> p" and p: "p \<le> 100" and n: "length xs < 2 ^ 51"
    by blast+
  have "(2::nat) ^ 51 \<le> 2 ^ 53" by simp
  with n have n': "length xs < 2 ^ 53" by (rule less_le_trans)
  let ?d = "\<lceil>to_double (to_double (p / 100) * of_nat (length xs))\<rceil> - 1"
  let ?k = "nat (max 0 (min (int (length xs) - 1) ?d))"
  from percentile_index_bound [OF p n'] have b: "?d < int (length xs)" by simp
  then have m: "min (int (length xs) - 1) ?d = ?d" by simp
  from b a0 have lt: "nat (max 0 ?d) < length xs" by (cases xs) auto
  have c: "calculatePercentile xs p = Some (xs ! nat (max 0 ?d))"
    using lt a0 by (simp add: calculatePercentile_def Let_def)
  have r: "\<bar>int ?k - int (exact_rank xs p)\<bar> \<le> 1"
    by (rule double_rank_near [OF p0 p n])
  show "\<exists>i < length xs. calculatePercentile xs p = Some (xs ! i) \<and>
         \<bar>int i - int (exact_rank xs p)\<bar> \<le> 1"
  proof (intro exI conjI)
    show "nat (max 0 ?d) < length xs" by (rule lt)
    show "calculatePercentile xs p = Some (xs ! nat (max 0 ?d))" by (rule c)
    show "\<bar>int (nat (max 0 ?d)) - int (exact_rank xs p)\<bar> \<le> 1" using r unfolding m .
  qed
next
  assume a: "xs \<noteq> [] \<and> length xs < 2 ^ 53"
  then have "nat (max 0 (int (length xs) - 1)) = length xs - 1" by simp
  then show "calculatePercentile xs 100 = Some (xs ! (length xs - 1))"
    using a percentile_100 [of "length xs"]
    by (simp add: calculatePercentile_def Let_def)
qed

theorem percentile_nearest_rank_witness:
  "calculatePercentile [] 50 = Some 0 \<and> calculatePercentile [42] 50 = Some 42 \<and>
   calculatePercentile [1, 2, 3, 4, 5, 6, 7, 8, 9, 10] 50 = Some 5 \<and>
   calculatePercentile [1, 2, 3, 4, 5, 6, 7, 8, 9, 10] 90 = Some 9 \<and>
   calculatePercentile [1, 2, 3, 4, 5, 6, 7, 8, 9, 10] 100 = Some 10 \<and>
   exact_rank [1, 2, 3, 4, 5, 6, 7, 8, 9, 10] 50 = 4"
proof -
  note w50 = percentile_nearest_rank [of 50 42 "[1, 2, 3, 4, 5, 6, 7, 8, 9, 10]"]
  note w90 = percentile_nearest_rank [of 90 42 "[1, 2, 3, 4, 5, 6, 7, 8, 9, 10]"]
  have c5: "\<lceil>to_double (to_double (50 / 100) *
      (of_nat (length [1, 2, 3, 4, 5, 6, 7, 8, 9, 10 :: rat]) :: rat))\<rceil> = 5"
    using doubles_half_10 by simp
  have c9: "\<lceil>to_double (to_double (90 / 100) *
      (of_nat (length [1, 2, 3, 4, 5, 6, 7, 8, 9, 10 :: rat]) :: rat))\<rceil> = 9"
    using doubles_90_10 by simp
  have x: "\<lceil>(50 / 100 :: rat) * 10\<rceil> = 5" by (simp add: ceiling_unique)
  have r: "exact_rank [1, 2, 3, 4, 5, 6, 7, 8, 9, 10] 50 = 4"
    unfolding exact_rank_def using x by simp
  from w50 w90 r show ?thesis unfolding c5 c9 by simp
qed

text \<open>
  With rounding the index can be one above the nearest rank. For the sample
  \<open>1, 2, ..., 25\<close> and the percentile 28 the exact product \<open>28 / 100 * 25\<close> is 7, the
  nearest rank is index 6 and its element is 7; the double nearest to \<open>0.28\<close> lies above
  it, the rounded product is above 7, and the code returns the element 8 at index 7.
\<close>

theorem percentile_rounding_above_rank:
  "calculatePercentile one_to_25 28 = Some 8 \<and>
   one_to_25 ! exact_rank one_to_25 28 = 7 \<and>
   calculatePercentile one_to_25 28 \<noteq> Some (one_to_25 ! exact_rank one_to_25 28)"
proof -
  have l: "length one_to_25 = 25" by (simp add: one_to_25_def)
  have a: "calculatePercentile one_to_25 28 = Some 8"
    using doubles_28_25 by (simp add: calculatePercentile_def l) (simp add: one_to_25_def)
  have c: "\<lceil>(28 / 100 :: rat) * 25\<rceil> = 7" by (simp add: ceiling_unique)
  have b: "one_to_25 ! exact_rank one_to_25 28 = 7"
    unfolding exact_rank_def l using c by (simp add: one_to_25_def)
  show ?thesis using a b by simp
qed

text \<open>
  Above 100 the index is not clamped: for the one-element sample \<open>[42]\<close> and the
  percentile 150 the index is 1 and the array read gives \<open>undefined\<close>, not 42.
\<close>

lemma percentile_singleton_above_100:
  "calculatePercentile [42] 150 = None"
proof -
  have "\<lceil>to_double (to_double (150 / 100))\<rceil> = 2" by code_simp
  then show ?thesis by (simp add: calculatePercentile_def Let_def)
qed

lemma constant_data_throws:
  assumes "data \<noteq> []" "\<forall>x\<in>set data. x = v"
  shows "createHistogramBins data binCount = Inl TypeError"
proof -
  obtain x xs where d: "data = x # xs" using assms(1) by (cases data) auto
  have mn: "foldl min x xs = v" "foldl max x xs = v" if "\<forall>y\<in>set (x # xs). y = v" for x xs
    using that by (induction xs arbitrary: x) auto
  show ?thesis
    using assms(2) mn [of x xs] unfolding d
    by (simp add: createHistogramBins_def bin_index_def)
qed

text \<open>
  Claim C6 fails on the code for a sample whose values are all equal, a one-element
  sample among them: the bin width is zero, the bin index is \<open>NaN\<close>, and the update of
  the bin throws a TypeError instead of counting the value in a bin.
\<close>

theorem histogram_single_value_throws:
  "createHistogramBins [5] 1 = Inl TypeError \<and> createHistogramBins [3, 3, 3] 20 = Inl TypeError"
  using constant_data_throws [of "[5]" 5 1] constant_data_throws [of "[3, 3, 3]" 3 20]
  by simp

text \<open>
  For data with two different values and at least one bin the function does what the
  claim says: it returns \<open>binCount\<close> bins of equal width from the minimum to the maximum,
  every value is counted in the one bin of its index, and the maximum is counted in the
  last bin.
\<close>

lemma foldl_min_Min: "foldl min x xs = Min (set (x # xs))"
  for x :: rat
proof -
  have "foldl min x xs = fold min xs x"
    by (induction xs arbitrary: x) (simp_all add: min.commute)
  then show ?thesis by (simp only: Min.set_eq_fold)
qed

lemma foldl_max_Max: "foldl max x xs = Max (set (x # xs))"
  for x :: rat
proof -
  have "foldl max x xs = fold max xs x"
    by (induction xs arbitrary: x) (simp_all add: max.commute)
  then show ?thesis by (simp only: Max.set_eq_fold)
qed

lemma bin_index_cases:
  assumes n: "0 < n" and w: "0 < w" and v: "mn \<le> v"
  shows "\<exists>i<n. bin_index mn w n v = Some i \<and> mn + of_nat i * w \<le> v \<and>
           (v < mn + of_nat i * w + w \<or> i = n - 1)"
proof -
  let ?f = "\<lfloor>(v - mn) / w\<rfloor>"
  have f0: "0 \<le> ?f" using w v by simp
  have lo: "of_int ?f * w \<le> v - mn"
    using w by (simp add: pos_le_divide_eq [symmetric])
  have "(v - mn) / w < of_int ?f + 1"
    using floor_correct [of "(v - mn) / w"] by simp
  then have hi: "v - mn < (of_int ?f + 1) * w"
    using w by (simp only: pos_divide_less_eq)
  show ?thesis
  proof (cases "?f \<le> int n - 1")
    case True
    then have k: "min ?f (int n - 1) = ?f" by simp
    have i: "nat ?f < n" using True f0 by linarith
    have idx: "bin_index mn w n v = Some (nat ?f)"
      using n w f0 by (simp add: bin_index_def k Let_def)
    have c: "(of_nat (nat ?f) :: rat) = of_int ?f" using f0 by simp
    have "mn + of_nat (nat ?f) * w \<le> v" unfolding c using lo by simp
    moreover have "v < mn + of_nat (nat ?f) * w + w"
      unfolding c using hi by (simp add: algebra_simps)
    ultimately show ?thesis using i idx by blast
  next
    case False
    then have k: "min ?f (int n - 1) = int n - 1" by simp
    have idx: "bin_index mn w n v = Some (n - 1)"
      using n w by (simp add: bin_index_def k Let_def nat_diff_distrib)
    have "(of_nat (n - 1) :: rat) \<le> of_int ?f"
    proof -
      have "int (n - 1) \<le> ?f" using False n by linarith
      then have "(of_int (int (n - 1)) :: rat) \<le> of_int ?f" by (simp only: of_int_le_iff)
      then show ?thesis by simp
    qed
    then have "of_nat (n - 1) * w \<le> of_int ?f * w"
      using w by (simp add: mult_right_mono)
    with lo have "mn + of_nat (n - 1) * w \<le> v" by linarith
    then show ?thesis using idx n by (intro exI [of _ "n - 1"]) simp
  qed
qed

lemma bin_index_max:
  assumes n: "0 < n" and lt: "mn < mx"
  shows "bin_index mn ((mx - mn) / of_nat n) n mx = Some (n - 1)"
proof -
  have w: "(mx - mn) / of_nat n \<noteq> 0" using n lt by simp
  have "(mx - mn) / ((mx - mn) / of_nat n) = of_nat n" using lt n by simp
  then have "\<lfloor>(mx - mn) / ((mx - mn) / of_nat n)\<rfloor> = int n" by simp
  then show ?thesis using n w by (simp add: bin_index_def Let_def nat_diff_distrib)
qed

lemma populate_ok:
  assumes "\<forall>v\<in>set vs. \<exists>i<length bins. bin_index mn w n v = Some i"
  shows "\<exists>bins'. populate mn w n vs bins = Inr bins' \<and> length bins' = length bins \<and>
     (\<forall>i<length bins.
        bin_start (bins' ! i) = bin_start (bins ! i) \<and>
        bin_end (bins' ! i) = bin_end (bins ! i) \<and>
        bin_values (bins' ! i) =
          bin_values (bins ! i) @ filter (\<lambda>v. bin_index mn w n v = Some i) vs \<and>
        bin_count (bins' ! i) =
          bin_count (bins ! i) + length (filter (\<lambda>v. bin_index mn w n v = Some i) vs))"
  using assms
proof (induction vs arbitrary: bins)
  case Nil
  show ?case by simp
next
  case (Cons v vs)
  from Cons.prems obtain j where j: "j < length bins" "bin_index mn w n v = Some j" by auto
  let ?b = "bins[j := (bins ! j)\<lparr>bin_count := bin_count (bins ! j) + 1,
                                   bin_values := bin_values (bins ! j) @ [v]\<rparr>]"
  have len: "length ?b = length bins" by simp
  have pre: "\<forall>v\<in>set vs. \<exists>i<length ?b. bin_index mn w n v = Some i"
    using Cons.prems by simp
  from Cons.IH [OF pre] obtain bins' where
    p: "populate mn w n vs ?b = Inr bins'" and l: "length bins' = length bins" and
    f: "\<And>i. i < length bins \<Longrightarrow>
        bin_start (bins' ! i) = bin_start (?b ! i) \<and>
        bin_end (bins' ! i) = bin_end (?b ! i) \<and>
        bin_values (bins' ! i) =
          bin_values (?b ! i) @ filter (\<lambda>v. bin_index mn w n v = Some i) vs \<and>
        bin_count (bins' ! i) =
          bin_count (?b ! i) + length (filter (\<lambda>v. bin_index mn w n v = Some i) vs)"
    unfolding len by blast
  have step: "populate mn w n (v # vs) bins = Inr bins'"
    using j p by simp
  have fields: "bin_start (bins' ! i) = bin_start (bins ! i) \<and>
        bin_end (bins' ! i) = bin_end (bins ! i) \<and>
        bin_values (bins' ! i) =
          bin_values (bins ! i) @ filter (\<lambda>v. bin_index mn w n v = Some i) (v # vs) \<and>
        bin_count (bins' ! i) =
          bin_count (bins ! i) + length (filter (\<lambda>v. bin_index mn w n v = Some i) (v # vs))"
    if i: "i < length bins" for i
  proof (cases "i = j")
    case True
    with f [OF i] j show ?thesis by simp
  next
    case False
    with f [OF i] j show ?thesis by simp
  qed
  show ?case
    using step l fields by blast
qed

lemma count_partition:
  fixes n :: nat
  assumes "\<forall>v\<in>set vs. \<exists>i<n. f v = Some i"
  shows "(\<Sum>i<n. length (filter (\<lambda>v. f v = Some i) vs)) = length vs"
  using assms
proof (induction vs)
  case Nil
  show ?case by simp
next
  case (Cons v vs)
  from Cons.prems obtain j where j: "j < n" "f v = Some j" by auto
  have "(\<Sum>i<n. length (filter (\<lambda>u. f u = Some i) (v # vs))) =
        (\<Sum>i<n. (if i = j then 1 else 0) + length (filter (\<lambda>u. f u = Some i) vs))"
    by (rule sum.cong) (auto simp: j)
  also have "\<dots> = (\<Sum>i<n. if i = j then 1 else 0) + (\<Sum>i<n. length (filter (\<lambda>u. f u = Some i) vs))"
    by (simp add: sum.distrib)
  also have "(\<Sum>i<n. if i = j then 1 else 0) = (1::nat)"
  proof -
    have "(\<Sum>i\<in>{..<n}. if i = j then 1 else 0) = (if j \<in> {..<n} then (1::nat) else 0)"
      by (rule sum.delta) simp
    also have "\<dots> = 1" using j(1) by simp
    finally show ?thesis .
  qed
  finally show ?case using Cons by simp
qed

lemma histogram_nonconstant:
  assumes n: "0 < binCount" and d: "data \<noteq> []" and lt: "Min (set data) < Max (set data)"
  defines "mn \<equiv> Min (set data)"
    and "w \<equiv> (Max (set data) - Min (set data)) / of_nat binCount"
  shows "\<exists>bins. createHistogramBins data binCount = Inr bins \<and> length bins = binCount \<and>
     (\<forall>i<binCount.
        bin_start (bins ! i) = mn + of_nat i * w \<and>
        bin_end (bins ! i) = mn + of_nat i * w + w \<and>
        bin_values (bins ! i) = filter (\<lambda>v. bin_index mn w binCount v = Some i) data \<and>
        bin_count (bins ! i) = length (bin_values (bins ! i))) \<and>
     bin_start (bins ! 0) = Min (set data) \<and>
     bin_end (bins ! (binCount - 1)) = Max (set data) \<and>
     (\<Sum>i<binCount. bin_count (bins ! i)) = length data \<and>
     Max (set data) \<in> set (bin_values (bins ! (binCount - 1)))"
proof -
  obtain x xs where data: "data = x # xs" using d by (cases data) auto
  let ?bins0 = "map (\<lambda>i. \<lparr>bin_start = mn + of_nat i * w, bin_end = mn + of_nat i * w + w,
                            bin_count = 0, bin_values = []\<rparr>) [0..<binCount]"
  have mnx: "foldl min x xs = mn" unfolding mn_def data by (rule foldl_min_Min)
  have mxx: "foldl max x xs = Max (set data)" unfolding data by (rule foldl_max_Max)
  have c: "createHistogramBins data binCount = populate mn w binCount data ?bins0"
    unfolding createHistogramBins_def data list.case Let_def mnx mxx [unfolded data]
    by (simp add: w_def mn_def data)
  have wpos: "0 < w" unfolding w_def using n lt by simp
  have len0: "length ?bins0 = binCount" by simp
  have idx: "\<exists>i<binCount. bin_index mn w binCount v = Some i" if "v \<in> set data" for v
  proof -
    have "mn \<le> v" unfolding mn_def using that by simp
    from bin_index_cases [OF n wpos this] show ?thesis by blast
  qed
  then have pre: "\<forall>v\<in>set data. \<exists>i<length ?bins0. bin_index mn w binCount v = Some i"
    unfolding len0 by blast
  from populate_ok [OF pre] obtain bins where
    p: "populate mn w binCount data ?bins0 = Inr bins" and l: "length bins = binCount" and
    f: "\<And>i. i < binCount \<Longrightarrow>
        bin_start (bins ! i) = bin_start (?bins0 ! i) \<and>
        bin_end (bins ! i) = bin_end (?bins0 ! i) \<and>
        bin_values (bins ! i) =
          bin_values (?bins0 ! i) @ filter (\<lambda>v. bin_index mn w binCount v = Some i) data \<and>
        bin_count (bins ! i) =
          bin_count (?bins0 ! i) + length (filter (\<lambda>v. bin_index mn w binCount v = Some i) data)"
    unfolding len0 by blast
  have g: "bin_start (bins ! i) = mn + of_nat i * w \<and>
        bin_end (bins ! i) = mn + of_nat i * w + w \<and>
        bin_values (bins ! i) = filter (\<lambda>v. bin_index mn w binCount v = Some i) data \<and>
        bin_count (bins ! i) = length (bin_values (bins ! i))" if i: "i < binCount" for i
    using f [OF i] i by simp
  have s0: "bin_start (bins ! 0) = Min (set data)"
    using g [OF n] by (simp add: mn_def)
  have last: "binCount - 1 < binCount" using n by simp
  have nw: "of_nat binCount * w = Max (set data) - Min (set data)"
    unfolding w_def using n by simp
  have "of_nat (binCount - 1) * w + w = of_nat binCount * w"
    using n by (simp add: of_nat_diff algebra_simps)
  then have e: "bin_end (bins ! (binCount - 1)) = Max (set data)"
    using g [OF last] nw by (simp add: mn_def)
  have "(\<Sum>i<binCount. bin_count (bins ! i)) =
        (\<Sum>i<binCount. length (filter (\<lambda>v. bin_index mn w binCount v = Some i) data))"
    by (rule sum.cong) (use g in simp_all)
  also have "\<dots> = length data"
    by (rule count_partition) (use idx in blast)
  finally have total: "(\<Sum>i<binCount. bin_count (bins ! i)) = length data" .
  have mxin: "Max (set data) \<in> set data" using d by simp
  have "bin_index mn w binCount (Max (set data)) = Some (binCount - 1)"
    unfolding mn_def w_def by (rule bin_index_max [OF n lt])
  then have top: "Max (set data) \<in> set (bin_values (bins ! (binCount - 1)))"
    using g [OF last] mxin by simp
  have allg: "\<forall>i<binCount.
        bin_start (bins ! i) = mn + of_nat i * w \<and>
        bin_end (bins ! i) = mn + of_nat i * w + w \<and>
        bin_values (bins ! i) = filter (\<lambda>v. bin_index mn w binCount v = Some i) data \<and>
        bin_count (bins ! i) = length (bin_values (bins ! i))"
    using g by blast
  show ?thesis
    by (rule exI [of _ bins]) (intro conjI c [unfolded p] l allg s0 e total top)
qed

section \<open>Processing a batch of files\<close>

text \<open>
  Claim C1 fails on the code: the timestamps behind a file's metadata are those of its
  queries, WAL applies and system events only. A file whose only record is a WAL commit
  gets no metadata entry although it has a timestamped record; a file with a query at
  time 2000 and a WAL commit at time 1000 gets the record count 1 and the start time
  2000.
\<close>

theorem metadata_ignores_three_categories:
  "fileMetadata (processFiles sample_engine (logParser epoch) [commit_only_file]) = [] \<and>
   length (walCommits (allResults
     (processFiles sample_engine (logParser epoch) [commit_only_file]))) = 1 \<and>
   map recordCount (fileMetadata
     (processFiles sample_engine (fixed_parser mixed_result) [mixed_file])) = [1] \<and>
   map meta_startTime (fileMetadata
     (processFiles sample_engine (fixed_parser mixed_result) [mixed_file])) =
     [Some (Some 2000)] \<and>
   all_six_timestamps mixed_result = [Some 2000, Some 1000]"
proof -
  have r: "logParser epoch sample_commit_line ''a.log'' =
     Inr (empty_result\<lparr>walCommits :=
       [\<lparr>timestamp = Some 0, file = ''a.log'', wc_table = ''trades'', rowsCommitted = 100,
         rowLo = 80337, rowHi = 80437\<rparr>]\<rparr>)"
    by code_simp
  have a: "processFiles sample_engine (logParser epoch) [commit_only_file] =
     initial_state\<lparr>allResults := empty_result\<lparr>walCommits :=
       [\<lparr>timestamp = Some 0, file = ''a.log'', wc_table = ''trades'', rowsCommitted = 100,
         rowLo = 80337, rowHi = 80437\<rparr>]\<rparr>\<rparr>"
    by (simp add: processFiles_def process_file_def try_block_def commit_only_file_def r
        file_timestamps_def merge_results_def spread_overflow_def sample_engine_def
        initial_state_def empty_result_def Let_def)
  have b: "processFiles sample_engine (fixed_parser mixed_result) [mixed_file] =
     \<lparr>allResults = mixed_result,
      fileMetadata = [\<lparr>fileName = ''b.log'', meta_startTime = Some (Some 2000),
                       meta_endTime = Some (Some 2000), recordCount = 1\<rparr>],
      showErrorCalls = [], errorAlert = None\<rparr>"
    by (simp add: processFiles_def process_file_def try_block_def mixed_file_def
        fixed_parser_def mixed_result_def file_timestamps_def merge_results_def
        spread_overflow_def sample_engine_def initial_state_def empty_result_def
        calculateTimeMetrics_def addFileMetadata_def Let_def)
  have c: "all_six_timestamps mixed_result = [Some 2000, Some 1000]"
    by (simp add: all_six_timestamps_def mixed_result_def empty_result_def)
  show ?thesis unfolding a b using c by (simp add: initial_state_def empty_result_def)
qed

text \<open>
  What the code computes: for a file that is read and parsed, one metadata entry when the
  file has a query, WAL apply or system event, with the earliest and latest date of these
  records and their number.
\<close>

lemma date_of_min_valid:
  assumes "ts \<noteq> []"
  shows "date_of_min (map Some ts) = Some (Min (set ts))"
proof -
  obtain t ts' where ts: "ts = t # ts'" using assms by (cases ts) auto
  have "foldl nan_min (Some a) (map Some xs) = Some (fold min xs a)" for a xs
    by (induction xs arbitrary: a) (simp_all add: min.commute)
  then show ?thesis unfolding ts by (simp add: Min.set_eq_fold del: set_simps)
qed

lemma date_of_max_valid:
  assumes "ts \<noteq> []"
  shows "date_of_max (map Some ts) = Some (Max (set ts))"
proof -
  obtain t ts' where ts: "ts = t # ts'" using assms by (cases ts) auto
  have "foldl nan_max (Some a) (map Some xs) = Some (fold max xs a)" for a xs
    by (induction xs arbitrary: a) (simp_all add: max.commute)
  then show ?thesis unfolding ts by (simp add: Max.set_eq_fold del: set_simps)
qed

lemma merge_keeps:
  "fileMetadata (fst (merge_results eng result s)) = fileMetadata s"
  "showErrorCalls (fst (merge_results eng result s)) = showErrorCalls s"
  "errorAlert (fst (merge_results eng result s)) = errorAlert s"
  by (simp_all add: merge_results_def Let_def)

lemma metadata_of_parsed_file:
  assumes "readFile f = Inr content" "parser content (name f) = Inr result"
    and "\<not> spread_overflow eng (file_timestamps result)"
  shows "fileMetadata (process_file eng parser s f) =
     fileMetadata s @
     (if file_timestamps result = [] then []
      else [\<lparr>fileName = name f,
              meta_startTime = Some (date_of_min (file_timestamps result)),
              meta_endTime = Some (date_of_max (file_timestamps result)),
              recordCount = length (file_timestamps result)\<rparr>])"
    and "file_timestamps result =
      map timestamp (queries result) @ map timestamp (walJobs result) @
      map timestamp (systemEvents result)"
proof -
  show "file_timestamps result =
      map timestamp (queries result) @ map timestamp (walJobs result) @
      map timestamp (systemEvents result)"
    by (simp add: file_timestamps_def)
  let ?s = "if file_timestamps result = [] then s
            else addFileMetadata (name f) (Some (date_of_min (file_timestamps result)))
                   (Some (date_of_max (file_timestamps result)))
                   (length (file_timestamps result)) s"
  have t: "try_block eng parser s f = merge_results eng result ?s"
    using assms by (simp add: try_block_def calculateTimeMetrics_def Let_def)
  have "fileMetadata (process_file eng parser s f) = fileMetadata ?s"
    unfolding process_file_def t
    using merge_keeps(1) [of eng result ?s]
    by (cases "merge_results eng result ?s") (auto simp: showError_def split: option.splits)
  then show "fileMetadata (process_file eng parser s f) =
     fileMetadata s @
     (if file_timestamps result = [] then []
      else [\<lparr>fileName = name f,
              meta_startTime = Some (date_of_min (file_timestamps result)),
              meta_endTime = Some (date_of_max (file_timestamps result)),
              recordCount = length (file_timestamps result)\<rparr>])"
    by (simp add: addFileMetadata_def)
qed

text \<open>
  What a file adds to the collections and to the metadata, and what its \<open>try\<close> block
  throws, does not depend on the state in which the file is processed.
\<close>

lemma merge_results_thrown:
  "snd (merge_results eng result s) =
     (if spread_overflow eng (queries result) \<or> spread_overflow eng (walJobs result) \<or>
         spread_overflow eng (walCommits result) \<or>
         spread_overflow eng (partitionClosings result) \<or>
         spread_overflow eng (pgwireConnections result) \<or>
         spread_overflow eng (systemEvents result)
      then Some (range_error eng) else None)"
  by (simp add: merge_results_def Let_def)

lemma merge_results_data:
  assumes "allResults s = allResults t"
  shows "allResults (fst (merge_results eng result s)) =
         allResults (fst (merge_results eng result t))"
  using assms by (simp add: merge_results_def Let_def)

lemma try_block_thrown:
  "snd (try_block eng parser s f) = caught eng parser f"
  unfolding caught_def try_block_def
  by (simp add: Let_def merge_results_thrown split: sum.splits)

lemma try_block_data:
  assumes "allResults s = allResults t" "fileMetadata s = fileMetadata t"
  shows "allResults (fst (try_block eng parser s f)) = allResults (fst (try_block eng parser t f))"
    and "fileMetadata (fst (try_block eng parser s f)) =
         fileMetadata (fst (try_block eng parser t f))"
  using assms
  by (auto simp: try_block_def Let_def merge_keeps addFileMetadata_def
      intro!: merge_results_data split: sum.splits)

lemma try_block_keeps:
  "showErrorCalls (fst (try_block eng parser s f)) = showErrorCalls s"
  "errorAlert (fst (try_block eng parser s f)) = errorAlert s"
  by (auto simp: try_block_def Let_def merge_keeps addFileMetadata_def split: sum.splits)

lemma process_file_split:
  "process_file eng parser s f =
     (case caught eng parser f of
        None \<Rightarrow> fst (try_block eng parser s f)
      | Some e \<Rightarrow> showError (createErrorMessage (name f) e) (fst (try_block eng parser s f)))"
  unfolding process_file_def try_block_thrown [of eng parser s f, symmetric]
  by (cases "try_block eng parser s f") (simp add: createErrorMessage_def split: option.splits)

lemma failure_caught:
  "failure parser f = Some e \<Longrightarrow> caught eng parser f = Some e"
  by (auto simp: failure_def caught_def try_block_def split: sum.splits)

lemma failure_try_block:
  "failure parser f = Some e \<Longrightarrow> fst (try_block eng parser s f) = s"
  by (auto simp: failure_def try_block_def split: sum.splits)

lemma process_file_failure:
  assumes "failure parser f = Some e"
  shows "process_file eng parser s f = showError (createErrorMessage (name f) e) s"
  unfolding process_file_split failure_caught [OF assms] failure_try_block [OF assms] by simp

lemma process_file_data:
  assumes "allResults s = allResults t" "fileMetadata s = fileMetadata t"
  shows "allResults (process_file eng parser s f) = allResults (process_file eng parser t f) \<and>
         fileMetadata (process_file eng parser s f) = fileMetadata (process_file eng parser t f)"
  unfolding process_file_split
  using try_block_data [OF assms, of eng parser f]
  by (simp add: showError_def split: option.splits)

lemma fold_data:
  assumes "allResults s = allResults t" "fileMetadata s = fileMetadata t"
  shows "allResults (foldl (process_file eng parser) s fs) =
           allResults (foldl (process_file eng parser) t fs) \<and>
         fileMetadata (foldl (process_file eng parser) s fs) =
           fileMetadata (foldl (process_file eng parser) t fs)"
  using assms
proof (induction fs arbitrary: s t)
  case Nil
  then show ?case by simp
next
  case (Cons f fs)
  from process_file_data [OF Cons.prems, of eng parser f]
  have st: "allResults (process_file eng parser s f) = allResults (process_file eng parser t f)"
    "fileMetadata (process_file eng parser s f) = fileMetadata (process_file eng parser t f)"
    by blast+
  show ?case unfolding foldl_Cons by (rule Cons.IH [OF st])
qed

lemma process_file_calls:
  "showErrorCalls (process_file eng parser s f) = showErrorCalls s @ error_of eng parser f"
  unfolding process_file_split error_of_def
  by (simp add: showError_def try_block_keeps split: option.splits)

lemma fold_calls:
  "showErrorCalls (foldl (process_file eng parser) s fs) =
     showErrorCalls s @ concat (map (error_of eng parser) fs)"
  by (induction fs arbitrary: s) (simp_all add: process_file_calls)

lemma process_file_alert:
  assumes "errorAlert s = (if showErrorCalls s = [] then None else Some (last (showErrorCalls s)))"
  shows "errorAlert (process_file eng parser s f) =
     (if showErrorCalls (process_file eng parser s f) = [] then None
      else Some (last (showErrorCalls (process_file eng parser s f))))"
  unfolding process_file_split using assms
  by (simp add: showError_def try_block_keeps split: option.splits)

lemma fold_alert:
  "errorAlert s = (if showErrorCalls s = [] then None else Some (last (showErrorCalls s))) \<Longrightarrow>
   errorAlert (foldl (process_file eng parser) s fs) =
     (if showErrorCalls (foldl (process_file eng parser) s fs) = [] then None
      else Some (last (showErrorCalls (foldl (process_file eng parser) s fs))))"
proof (induction fs arbitrary: s)
  case Nil
  then show ?case by simp
next
  case (Cons f fs)
  show ?case
    unfolding foldl_Cons by (rule Cons.IH [OF process_file_alert [OF Cons.prems]])
qed

text \<open>
  Claim C5. When reading or parsing one file of a batch throws, the \<open>catch\<close> block
  receives what was thrown, and the step of the loop for this file changes neither the
  merged collections nor the file metadata: nothing of the failing file is merged. The
  files before and after it are processed as if the failing file were not in the batch:
  the merged collections and the file metadata are those of the batch without it. The
  call of \<open>showError\<close> for the failing file carries the message
  \<open>Failed to process <file>: <message>\<close>, the text \<open>createErrorMessage\<close> builds, the
  messages of a batch are shown in the order of its failing files, and the alert holds
  the last message shown. This holds for every engine, whatever the other files of the
  batch do, also when one of them fails later in its \<open>try\<close> block.
\<close>

theorem failed_file_isolated:
  "failure parser f = Some e \<Longrightarrow>
   caught eng parser f = Some e \<and>
   allResults (process_file eng parser s f) = allResults s \<and>
   fileMetadata (process_file eng parser s f) = fileMetadata s \<and>
   showErrorCalls (process_file eng parser s f) =
     showErrorCalls s @ [''Failed to process '' @ name f @ '': '' @ error_message e] \<and>
   allResults (processFiles eng parser (pre @ f # post)) =
     allResults (processFiles eng parser (pre @ post)) \<and>
   fileMetadata (processFiles eng parser (pre @ f # post)) =
     fileMetadata (processFiles eng parser (pre @ post)) \<and>
   showErrorCalls (processFiles eng parser (pre @ f # post)) =
     concat (map (error_of eng parser) pre) @
     [''Failed to process '' @ name f @ '': '' @ error_message e] @
     concat (map (error_of eng parser) post) \<and>
   createErrorMessage (name f) e = ''Failed to process '' @ name f @ '': '' @ error_message e \<and>
   errorAlert (processFiles eng parser (pre @ f # post)) =
     Some (last ((''Failed to process '' @ name f @ '': '' @ error_message e) #
                 concat (map (error_of eng parser) post)))"
proof -
  assume fl: "failure parser f = Some e"
  let ?s = "foldl (process_file eng parser) initial_state pre"
  let ?msg = "''Failed to process '' @ name f @ '': '' @ error_message e"
  let ?S = "processFiles eng parser (pre @ f # post)"
  have m: "createErrorMessage (name f) e = ?msg" by (simp add: createErrorMessage_def)
  have pf: "process_file eng parser t f = showError ?msg t" for t
    using process_file_failure [OF fl] unfolding m .
  have k: "caught eng parser f = Some e" by (rule failure_caught [OF fl])
  have one: "allResults (process_file eng parser s f) = allResults s"
    "fileMetadata (process_file eng parser s f) = fileMetadata s"
    "showErrorCalls (process_file eng parser s f) = showErrorCalls s @ [?msg]"
    unfolding pf by (simp_all add: showError_def)
  have same: "allResults (showError ?msg ?s) = allResults ?s"
    "fileMetadata (showError ?msg ?s) = fileMetadata ?s"
    by (simp_all add: showError_def)
  have r1: "?S = foldl (process_file eng parser) (showError ?msg ?s) post"
    unfolding processFiles_def foldl_append foldl_Cons pf ..
  have r2: "processFiles eng parser (pre @ post) = foldl (process_file eng parser) ?s post"
    unfolding processFiles_def foldl_append ..
  have d: "allResults ?S = allResults (processFiles eng parser (pre @ post)) \<and>
           fileMetadata ?S = fileMetadata (processFiles eng parser (pre @ post))"
    unfolding r1 r2 by (rule fold_data [OF same])
  have ef: "error_of eng parser f = [?msg]"
    using k m by (simp add: error_of_def)
  have i: "showErrorCalls initial_state = []" by (simp add: initial_state_def)
  have c: "showErrorCalls ?S =
     concat (map (error_of eng parser) pre) @ [?msg] @ concat (map (error_of eng parser) post)"
    unfolding processFiles_def fold_calls i map_append list.map concat_append concat.simps ef
    by (simp only: append_Nil append_assoc)
  have ia: "errorAlert initial_state =
      (if showErrorCalls initial_state = [] then None
       else Some (last (showErrorCalls initial_state)))"
    by (simp add: initial_state_def)
  have fa: "errorAlert ?S =
      (if showErrorCalls ?S = [] then None else Some (last (showErrorCalls ?S)))"
    unfolding processFiles_def by (rule fold_alert [OF ia])
  have ne: "showErrorCalls ?S \<noteq> []" unfolding c by simp
  have l: "last (showErrorCalls ?S) = last (?msg # concat (map (error_of eng parser) post))"
    unfolding c by (simp only: last_append append_Cons append_Nil list.simps if_False)
  have a: "errorAlert ?S = Some (last (?msg # concat (map (error_of eng parser) post)))"
    using fa ne l by (simp only: if_False)
  from d have d1: "allResults ?S = allResults (processFiles eng parser (pre @ post))"
    and d2: "fileMetadata ?S = fileMetadata (processFiles eng parser (pre @ post))"
    by blast+
  from k one d1 d2 c m a show ?thesis by (intro conjI)
qed

lemma mixed_file_merged:
  "processFiles sample_engine (throwing_parser mixed_result) [mixed_file, mixed_file] =
     \<lparr>allResults = empty_result\<lparr>
        queries := queries mixed_result @ queries mixed_result,
        walCommits := walCommits mixed_result @ walCommits mixed_result\<rparr>,
      fileMetadata =
        [\<lparr>fileName = ''b.log'', meta_startTime = Some (Some 2000),
          meta_endTime = Some (Some 2000), recordCount = 1\<rparr>,
         \<lparr>fileName = ''b.log'', meta_startTime = Some (Some 2000),
          meta_endTime = Some (Some 2000), recordCount = 1\<rparr>],
      showErrorCalls = [], errorAlert = None\<rparr>"
  by (simp add: processFiles_def process_file_def try_block_def mixed_file_def
      throwing_parser_def mixed_result_def file_timestamps_def merge_results_def
      spread_overflow_def sample_engine_def initial_state_def empty_result_def
      calculateTimeMetrics_def addFileMetadata_def Let_def)

theorem failed_file_isolated_witness:
  "failure (throwing_parser mixed_result) bad_file = Some (JsError ''Parse failed'') \<and>
   showErrorCalls (processFiles sample_engine (throwing_parser mixed_result)
     [mixed_file, bad_file, mixed_file]) =
     [''Failed to process bad.log: Parse failed''] \<and>
   allResults (processFiles sample_engine (throwing_parser mixed_result)
     [mixed_file, bad_file, mixed_file]) =
     allResults (processFiles sample_engine (throwing_parser mixed_result)
       [mixed_file, mixed_file]) \<and>
   length (queries (allResults (processFiles sample_engine (throwing_parser mixed_result)
     [mixed_file, bad_file, mixed_file]))) = 2 \<and>
   length (fileMetadata (processFiles sample_engine (throwing_parser mixed_result)
     [mixed_file, bad_file, mixed_file])) = 2"
proof -
  have h: "failure (throwing_parser mixed_result) bad_file = Some (JsError ''Parse failed'')"
    by (simp add: failure_def throwing_parser_def bad_file_def)
  have n: "error_of sample_engine (throwing_parser mixed_result) mixed_file = []"
    using fold_calls [of sample_engine "throwing_parser mixed_result" initial_state
        "[mixed_file, mixed_file]"]
    unfolding processFiles_def [symmetric] mixed_file_merged
    by (simp add: initial_state_def)
  have q: "length (queries (allResults
     (processFiles sample_engine (throwing_parser mixed_result) [mixed_file, mixed_file]))) = 2"
    "length (fileMetadata
     (processFiles sample_engine (throwing_parser mixed_result) [mixed_file, mixed_file])) = 2"
    unfolding mixed_file_merged by (simp_all add: mixed_result_def empty_result_def)
  from failed_file_isolated [OF h, of sample_engine initial_state "[mixed_file]" "[mixed_file]"]
    h n q
  show ?thesis by (simp add: bad_file_def)
qed

text \<open>
  The later steps of the \<open>try\<close> block. A file whose timestamp list is longer than the
  engine passes as arguments fails in \<open>calculateTimeMetrics\<close>, before the metadata entry
  and the merge: it is reported and leaves nothing behind. A file that fails at a
  \<open>push\<close> of the merge is reported as failed as well, but its metadata entry and the
  collections pushed before stay in the output: with one query and more WAL commits than
  the engine passes, the query and the metadata entry are kept and the WAL commits are
  dropped. Such a failure is not one of reading or parsing the file.
\<close>

lemma metrics_failure_clean:
  assumes "readFile f = Inr content" "parser content (name f) = Inr result"
    and "spread_overflow eng (file_timestamps result)"
  shows "process_file eng parser s f =
     showError (createErrorMessage (name f) (range_error eng)) s"
proof -
  from assms(3) have "file_timestamps result \<noteq> []"
    by (auto simp: spread_overflow_def)
  then show ?thesis
    using assms
    by (simp add: process_file_def try_block_def createErrorMessage_def Let_def)
qed

lemma merge_failure_partial:
  assumes "0 < maxArguments eng"
  shows "failure (fixed_parser (many_commits eng)) big_file = None \<and>
   caught eng (fixed_parser (many_commits eng)) big_file = Some (range_error eng) \<and>
   showErrorCalls (processFiles eng (fixed_parser (many_commits eng)) [big_file]) =
     [''Failed to process c.log: '' @ rangeErrorMessage eng] \<and>
   queries (allResults (processFiles eng (fixed_parser (many_commits eng)) [big_file])) =
     queries (many_commits eng) \<and>
   walCommits (allResults (processFiles eng (fixed_parser (many_commits eng)) [big_file])) = [] \<and>
   map recordCount (fileMetadata
     (processFiles eng (fixed_parser (many_commits eng)) [big_file])) = [1]"
proof -
  have t: "try_block eng (fixed_parser (many_commits eng)) initial_state big_file =
     (initial_state\<lparr>
        allResults := empty_result\<lparr>queries := queries (many_commits eng)\<rparr>,
        fileMetadata := [\<lparr>fileName = ''c.log'', meta_startTime = Some (Some 2000),
                           meta_endTime = Some (Some 2000), recordCount = 1\<rparr>]\<rparr>,
      Some (range_error eng))"
    using assms
    by (simp add: try_block_def big_file_def fixed_parser_def many_commits_def
        file_timestamps_def merge_results_def spread_overflow_def initial_state_def
        empty_result_def calculateTimeMetrics_def addFileMetadata_def Let_def)
  have f: "failure (fixed_parser (many_commits eng)) big_file = None"
    by (simp add: failure_def fixed_parser_def big_file_def)
  have c: "caught eng (fixed_parser (many_commits eng)) big_file = Some (range_error eng)"
    unfolding caught_def t by simp
  have p: "processFiles eng (fixed_parser (many_commits eng)) [big_file] =
     showError (''Failed to process c.log: '' @ rangeErrorMessage eng)
       (initial_state\<lparr>
          allResults := empty_result\<lparr>queries := queries (many_commits eng)\<rparr>,
          fileMetadata := [\<lparr>fileName = ''c.log'', meta_startTime = Some (Some 2000),
                             meta_endTime = Some (Some 2000), recordCount = 1\<rparr>]\<rparr>)"
    unfolding processFiles_def foldl_Cons foldl_Nil process_file_def t
    by (simp add: range_error_def big_file_def)
  show ?thesis
    unfolding p using f c
    by (simp add: showError_def initial_state_def empty_result_def)
qed

section \<open>Grouping by interval\<close>

lemma group_insert_map_of:
  "map_of (group_insert k v g) k' =
     (if k' = k then Some ((case map_of g k of None \<Rightarrow> [] | Some vs \<Rightarrow> vs) @ [v])
      else map_of g k')"
  by (induction g) auto

lemma group_insert_keys: "fst ` set (group_insert k v g) = insert k (fst ` set g)"
proof (induction g)
  case Nil
  show ?case by simp
next
  case (Cons a g)
  obtain k' vs where a: "a = (k', vs)" by (cases a)
  show ?case
  proof (cases "k = k'")
    case True
    then show ?thesis by (simp add: a insert_absorb2)
  next
    case False
    then show ?thesis by (simp add: a Cons insert_commute)
  qed
qed

lemma group_insert_distinct:
  "distinct (map fst g) \<Longrightarrow> distinct (map fst (group_insert k v g))"
proof (induction g)
  case Nil
  show ?case by simp
next
  case (Cons a g)
  obtain k' vs where a: "a = (k', vs)" by (cases a)
  from Cons have d: "distinct (map fst (group_insert k v g))" "k' \<notin> fst ` set g" by (auto simp: a)
  show ?case
  proof (cases "k = k'")
    case True
    with Cons.prems show ?thesis by (simp add: a)
  next
    case False
    have "k' \<notin> fst ` set (group_insert k v g)"
      unfolding group_insert_keys using d(2) False by simp
    with d(1) False show ?thesis by (simp add: a)
  qed
qed

lemma grouped_invariant:
  fixes kf :: "'v \<Rightarrow> 'k"
  defines "G \<equiv> \<lambda>xs. foldl (\<lambda>g x. group_insert (kf x) x g) [] xs"
  shows "distinct (map fst (G xs)) \<and> fst ` set (G xs) = kf ` set xs \<and>
         (\<forall>k. map_of (G xs) k =
            (if k \<in> kf ` set xs then Some (filter (\<lambda>x. kf x = k) xs) else None))"
proof (induction xs rule: rev_induct)
  case Nil
  show ?case by (simp add: G_def)
next
  case (snoc x xs)
  have step: "G (xs @ [x]) = group_insert (kf x) x (G xs)" by (simp add: G_def)
  from snoc have d: "distinct (map fst (G xs))" and s: "fst ` set (G xs) = kf ` set xs"
    and m: "\<And>k. map_of (G xs) k =
            (if k \<in> kf ` set xs then Some (filter (\<lambda>x. kf x = k) xs) else None)"
    by blast+
  have d': "distinct (map fst (G (xs @ [x])))"
    unfolding step by (rule group_insert_distinct [OF d])
  have s': "fst ` set (G (xs @ [x])) = kf ` set (xs @ [x])"
    unfolding step group_insert_keys s by simp
  have m': "map_of (G (xs @ [x])) k =
      (if k \<in> kf ` set (xs @ [x]) then Some (filter (\<lambda>y. kf y = k) (xs @ [x])) else None)" for k
  proof (cases "k = kf x")
    case True
    show ?thesis
    proof (cases "kf x \<in> kf ` set xs")
      case True
      with \<open>k = kf x\<close> show ?thesis unfolding step group_insert_map_of m by simp
    next
      case False
      then have "filter (\<lambda>y. kf y = kf x) xs = []"
        unfolding filter_empty_conv by (metis imageI)
      with False \<open>k = kf x\<close> show ?thesis unfolding step group_insert_map_of m by simp
    qed
  next
    case False
    then show ?thesis unfolding step group_insert_map_of m by auto
  qed
  show ?case using d' s' m' by blast
qed

lemma grouped_member:
  fixes kf :: "'v \<Rightarrow> 'k"
  shows "(k, vs) \<in> set (foldl (\<lambda>g x. group_insert (kf x) x g) [] xs) \<longleftrightarrow>
         k \<in> kf ` set xs \<and> vs = filter (\<lambda>x. kf x = k) xs"
proof -
  let ?G = "foldl (\<lambda>g x. group_insert (kf x) x g) [] xs"
  from grouped_invariant [of kf xs]
  have d: "distinct (map fst ?G)"
    and m: "map_of ?G k = (if k \<in> kf ` set xs then Some (filter (\<lambda>x. kf x = k) xs) else None)"
    by blast+
  have "(k, vs) \<in> set ?G \<longleftrightarrow> map_of ?G k = Some vs"
    using d by simp
  then show ?thesis unfolding m by auto
qed

lemma distinct_map_perm:
  assumes "distinct (map f xs)" "set ys = set xs" "length ys = length xs"
  shows "distinct (map f ys)"
proof (rule card_distinct)
  have "card (set (map f ys)) = card (set (map f xs))" using assms(2) by simp
  also have "\<dots> = length (map f xs)" by (rule distinct_card [OF assms(1)])
  finally show "card (set (map f ys)) = length (map f ys)" using assms(3) by simp
qed

lemma object_entries_set: "set (object_entries g) = set g"
  by (auto simp: object_entries_def)

lemma object_entries_length: "length (object_entries g) = length g"
  by (simp add: object_entries_def sum_length_filter_compl split_def)

lemma foldl_add_sum: "foldl (\<lambda>s x. s + f x) a xs = a + sum_list (map f xs)"
  for a :: rat
  by (induction xs arbitrary: a) (simp_all add: add.assoc)

lemma interval_key_valid:
  assumes "intervalMs \<noteq> 0" "list_all (\<lambda>r. timestamp r \<noteq> None) data" "r \<in> set data"
  shows "\<exists>n. intervalKey intervalMs r = Some n"
  using assms by (auto simp: intervalKey_def list_all_iff split: option.splits)

lemma make_bucket_fields:
  "bucket_timestamp (make_bucket (k, vs)) = k"
  "items (make_bucket (k, vs)) = vs"
  "count (make_bucket (k, vs)) = length vs"
  "avgTime (make_bucket (k, vs)) = sum_list (map executionTimeMs vs) / of_nat (length vs)"
  "vs \<noteq> [] \<Longrightarrow> maxTime (make_bucket (k, vs)) = Max (set (map executionTimeMs vs))"
proof -
  show "bucket_timestamp (make_bucket (k, vs)) = k" "items (make_bucket (k, vs)) = vs"
    "count (make_bucket (k, vs)) = length vs"
    by (simp_all add: make_bucket_def)
  show "avgTime (make_bucket (k, vs)) = sum_list (map executionTimeMs vs) / of_nat (length vs)"
    by (simp add: make_bucket_def foldl_add_sum)
  show "vs \<noteq> [] \<Longrightarrow> maxTime (make_bucket (k, vs)) = Max (set (map executionTimeMs vs))"
  proof -
    assume "vs \<noteq> []"
    then obtain x xs where v: "map executionTimeMs vs = x # xs" by (cases vs) auto
    show ?thesis
      unfolding make_bucket_def by (simp add: v foldl_max_Max del: foldl_Cons)
  qed
qed

lemma grouping_general:
  assumes i: "intervalMs \<noteq> 0" and v: "list_all (\<lambda>r. timestamp r \<noteq> None) data"
  shows "\<exists>bs. groupByInterval data intervalMs = Some bs \<and>
     sorted_wrt starts_before bs \<and>
     (\<forall>b\<in>set bs. \<exists>k. bucket_timestamp b = Some k \<and>
        items b = filter (\<lambda>r. intervalKey intervalMs r = Some k) data \<and>
        items b \<noteq> [] \<and> count b = length (items b) \<and>
        avgTime b = sum_list (map executionTimeMs (items b)) / of_nat (length (items b)) \<and>
        maxTime b = Max (set (map executionTimeMs (items b)))) \<and>
     (\<forall>r\<in>set data. \<exists>b\<in>set bs. bucket_timestamp b = intervalKey intervalMs r)"
proof -
  let ?kf = "intervalKey intervalMs"
  let ?G = "foldl (\<lambda>g item. group_insert (?kf item) item g) [] data"
  let ?E = "object_entries ?G"
  let ?B = "map make_bucket ?E"
  let ?tkey = "\<lambda>b. case bucket_timestamp b of None \<Rightarrow> 0 | Some n \<Rightarrow> n"
  let ?bs = "sort_key ?tkey ?B"
  have dG: "distinct (map fst ?G)" using grouped_invariant [of ?kf data] by blast
  have mem: "(k, vs) \<in> set ?E \<longleftrightarrow> k \<in> ?kf ` set data \<and> vs = filter (\<lambda>x. ?kf x = k) data"
    for k vs
    unfolding object_entries_set by (rule grouped_member)
  have valid: "\<exists>n. k = Some n" if "(k, vs) \<in> set ?E" for k vs
  proof -
    from that have "k \<in> ?kf ` set data" unfolding mem by (rule conjunct1)
    then obtain r where r: "r \<in> set data" and kr: "k = ?kf r" by (rule imageE)
    from interval_key_valid [OF i v r] show ?thesis unfolding kr .
  qed
  have dE: "distinct (map fst ?E)"
    by (rule distinct_map_perm [OF dG object_entries_set object_entries_length])
  have bucket: "\<exists>k. bucket_timestamp b = Some k \<and>
        items b = filter (\<lambda>r. ?kf r = Some k) data \<and>
        items b \<noteq> [] \<and> count b = length (items b) \<and>
        avgTime b = sum_list (map executionTimeMs (items b)) / of_nat (length (items b)) \<and>
        maxTime b = Max (set (map executionTimeMs (items b)))" if "b \<in> set ?B" for b
  proof -
    from that obtain k vs where e: "(k, vs) \<in> set ?E" and b: "b = make_bucket (k, vs)"
      by auto
    from valid [OF e] obtain n where k: "k = Some n" by blast
    from e have kin: "k \<in> ?kf ` set data" and vs: "vs = filter (\<lambda>x. ?kf x = k) data"
      unfolding mem by blast+
    from kin obtain r where "r \<in> set data" "?kf r = k" by auto
    then have ne: "vs \<noteq> []" unfolding vs by (auto simp: filter_empty_conv)
    show ?thesis
      unfolding b make_bucket_fields(1-4) make_bucket_fields(5) [OF ne]
      using ne vs k by blast
  qed
  have allvalid: "list_all (\<lambda>b. bucket_timestamp b \<noteq> None) ?B"
    unfolding list_all_iff
  proof (rule ballI)
    fix b
    assume "b \<in> set ?B"
    from bucket [OF this] obtain k where "bucket_timestamp b = Some k" by blast
    then show "bucket_timestamp b \<noteq> None" by simp
  qed
  have res: "groupByInterval data intervalMs = Some ?bs"
    unfolding groupByInterval_def Let_def using allvalid by simp
  have tk: "map ?tkey ?B = map (\<lambda>k. case k of None \<Rightarrow> 0 | Some n \<Rightarrow> n) (map fst ?E)"
    by (simp add: make_bucket_def)
  have inj: "inj_on (\<lambda>k. case k of None \<Rightarrow> (0::int) | Some n \<Rightarrow> n) (set (map fst ?E))"
  proof (rule inj_onI)
    fix x y
    assume x: "x \<in> set (map fst ?E)" and y: "y \<in> set (map fst ?E)"
      and eq: "(case x of None \<Rightarrow> (0::int) | Some n \<Rightarrow> n) = (case y of None \<Rightarrow> 0 | Some n \<Rightarrow> n)"
    from x obtain vx where "(x, vx) \<in> set ?E" by auto
    from valid [OF this] obtain nx where nx: "x = Some nx" by blast
    from y obtain vy where "(y, vy) \<in> set ?E" by auto
    from valid [OF this] obtain ny where ny: "y = Some ny" by blast
    from eq show "x = y" unfolding nx ny by simp
  qed
  have dB: "distinct (map ?tkey ?B)"
    unfolding tk by (rule distinct_map [THEN iffD2, OF conjI [OF dE inj]])
  have dbs: "distinct (map ?tkey ?bs)"
    by (rule distinct_map_perm [OF dB]) simp_all
  have sbs: "sorted (map ?tkey ?bs)" by (rule sorted_sort_key)
  have "sorted_wrt (<) (map ?tkey ?bs)"
    using sbs dbs by (simp only: strict_sorted_iff)
  then have st: "sorted_wrt (\<lambda>a b. ?tkey a < ?tkey b) ?bs"
    by (simp only: sorted_wrt_map)
  have setbs: "set ?bs = set ?B" by simp
  have sorted: "sorted_wrt starts_before ?bs"
  proof (rule sorted_wrt_mono_rel [OF _ st])
    fix a b
    assume a: "a \<in> set ?bs" and b: "b \<in> set ?bs" and lt: "?tkey a < ?tkey b"
    from a bucket obtain x where x: "bucket_timestamp a = Some x" unfolding setbs by blast
    from b bucket obtain y where y: "bucket_timestamp b = Some y" unfolding setbs by blast
    from lt show "starts_before a b" by (simp add: starts_before_def x y)
  qed
  have cover: "\<exists>b\<in>set ?bs. bucket_timestamp b = ?kf r" if r: "r \<in> set data" for r
  proof -
    have "(?kf r, filter (\<lambda>x. ?kf x = ?kf r) data) \<in> set ?E"
      unfolding mem using r by simp
    then have "make_bucket (?kf r, filter (\<lambda>x. ?kf x = ?kf r) data) \<in> set ?B"
      unfolding set_map by (rule imageI)
    moreover have "bucket_timestamp (make_bucket (?kf r, filter (\<lambda>x. ?kf x = ?kf r) data)) = ?kf r"
      by (rule make_bucket_fields(1))
    ultimately show ?thesis unfolding setbs by (rule rev_bexI)
  qed
  have all_b: "\<forall>b\<in>set ?bs. \<exists>k. bucket_timestamp b = Some k \<and>
        items b = filter (\<lambda>r. ?kf r = Some k) data \<and>
        items b \<noteq> [] \<and> count b = length (items b) \<and>
        avgTime b = sum_list (map executionTimeMs (items b)) / of_nat (length (items b)) \<and>
        maxTime b = Max (set (map executionTimeMs (items b)))"
    unfolding setbs by (rule ballI) (rule bucket)
  have all_r: "\<forall>r\<in>set data. \<exists>b\<in>set ?bs. bucket_timestamp b = ?kf r"
    by (rule ballI) (rule cover)
  show ?thesis
    by (rule exI [of _ ?bs]) (intro conjI res sorted all_b all_r)
qed

lemma aligned_keys:
  assumes "origin mod 1000 = (0::int)"
  shows "(origin + 100) div 1000 * 1000 = origin" "(origin + 500) div 1000 * 1000 = origin"
    "(origin + 1100) div 1000 * 1000 = origin + 1000"
proof -
  from assms obtain q where q: "origin = q * 1000" by (metis mod_eq_0_iff_dvd dvd_def mult.commute)
  show "(origin + 100) div 1000 * 1000 = origin" "(origin + 500) div 1000 * 1000 = origin"
    "(origin + 1100) div 1000 * 1000 = origin + 1000"
    unfolding q by simp_all
qed

lemma entries_two:
  assumes "x < y"
  shows "sort_key (\<lambda>b. case bucket_timestamp b of None \<Rightarrow> 0 | Some n \<Rightarrow> n)
           (map make_bucket (object_entries [(Some x, vs), (Some y, ws)])) =
         [make_bucket (Some x, vs), make_bucket (Some y, ws)]"
  using assms by (auto simp: object_entries_def is_array_index_def make_bucket_def)

lemma two_groups:
  assumes g: "foldl (\<lambda>g item. group_insert (intervalKey i item) item g) [] data =
      [(Some x, vs), (Some y, ws)]" and lt: "x < y"
  shows "groupByInterval data i = Some [make_bucket (Some x, vs), make_bucket (Some y, ws)]"
proof -
  have "list_all (\<lambda>b. bucket_timestamp b \<noteq> None)
          (map make_bucket (object_entries [(Some x, vs), (Some y, ws)]))"
    by (auto simp: list_all_iff object_entries_set make_bucket_def)
  then show ?thesis
    unfolding groupByInterval_def g Let_def using entries_two [OF lt, of vs ws] by simp
qed

lemma aligned_example:
  assumes "origin mod 1000 = 0"
  shows "groupByInterval
           [at_offset (origin + 100) a, at_offset (origin + 500) b, at_offset (origin + 1100) c] 1000 =
         Some [\<lparr>bucket_timestamp = Some origin,
                 items = [at_offset (origin + 100) a, at_offset (origin + 500) b],
                 avgTime = (a + b) / 2, maxTime = max a b, count = 2\<rparr>,
               \<lparr>bucket_timestamp = Some (origin + 1000),
                 items = [at_offset (origin + 1100) c],
                 avgTime = c, maxTime = c, count = 1\<rparr>]"
proof -
  let ?x = "at_offset (origin + 100) a" and ?y = "at_offset (origin + 500) b"
    and ?z = "at_offset (origin + 1100) c"
  have k: "intervalKey 1000 ?x = Some origin" "intervalKey 1000 ?y = Some origin"
    "intervalKey 1000 ?z = Some (origin + 1000)"
    by (simp_all add: intervalKey_def at_offset_def aligned_keys [OF assms])
  have g: "foldl (\<lambda>g item. group_insert (intervalKey 1000 item) item g) [] [?x, ?y, ?z] =
      [(Some origin, [?x, ?y]), (Some (origin + 1000), [?z])]"
    by (simp add: k)
  have lt: "origin < origin + 1000" by simp
  have m1: "make_bucket (Some origin, [?x, ?y]) =
      \<lparr>bucket_timestamp = Some origin, items = [?x, ?y],
        avgTime = (a + b) / 2, maxTime = max a b, count = 2\<rparr>"
    by (simp add: make_bucket_def at_offset_def)
  have m2: "make_bucket (Some (origin + 1000), [?z]) =
      \<lparr>bucket_timestamp = Some (origin + 1000), items = [?z],
        avgTime = c, maxTime = c, count = 1\<rparr>"
    by (simp add: make_bucket_def at_offset_def)
  show ?thesis
    using two_groups [OF g lt] unfolding m1 m2 .
qed

lemma unaligned_example:
  "groupByInterval [at_offset 600 10, at_offset 1000 20, at_offset 1600 30] 1000 =
     Some [\<lparr>bucket_timestamp = Some 0, items = [at_offset 600 10],
             avgTime = 10, maxTime = 10, count = 1\<rparr>,
           \<lparr>bucket_timestamp = Some 1000, items = [at_offset 1000 20, at_offset 1600 30],
             avgTime = 25, maxTime = 30, count = 2\<rparr>]"
proof -
  let ?x = "at_offset 600 10" and ?y = "at_offset 1000 20" and ?z = "at_offset 1600 30"
  have k: "intervalKey 1000 ?x = Some 0" "intervalKey 1000 ?y = Some 1000"
    "intervalKey 1000 ?z = Some 1000"
    by (simp_all add: intervalKey_def at_offset_def)
  have g: "foldl (\<lambda>g item. group_insert (intervalKey 1000 item) item g) [] [?x, ?y, ?z] =
      [(Some 0, [?x]), (Some 1000, [?y, ?z])]"
    by (simp add: k)
  have lt: "(0::int) < 1000" by simp
  have m1: "make_bucket (Some 0, [?x]) =
      \<lparr>bucket_timestamp = Some 0, items = [?x], avgTime = 10, maxTime = 10, count = 1\<rparr>"
    by (simp add: make_bucket_def at_offset_def)
  have m2: "make_bucket (Some 1000, [?y, ?z]) =
      \<lparr>bucket_timestamp = Some 1000, items = [?y, ?z], avgTime = 25, maxTime = 30, count = 2\<rparr>"
    by (simp add: make_bucket_def at_offset_def)
  show ?thesis
    using two_groups [OF g lt] unfolding m1 m2 .
qed

lemma key_of:
  assumes "0 \<le> s" "s < 1000" "n = q * 1000 + s"
  shows "n div 1000 * 1000 = q * (1000::int)"
  unfolding assms(3) using assms(1,2) by simp

lemma three_offsets:
  fixes origin :: int
  defines "x \<equiv> at_offset (origin + 100)" and "y \<equiv> at_offset (origin + 500)"
    and "z \<equiv> at_offset (origin + 1100)"
  shows "\<exists>b1 b2. groupByInterval [x a, y b, z c] 1000 = Some [b1, b2] \<and>
     (if origin mod 1000 < 500 \<or> 900 \<le> origin mod 1000
      then items b1 = [x a, y b] \<and> avgTime b1 = (a + b) / 2 \<and> items b2 = [z c]
      else items b1 = [x a] \<and> items b2 = [y b, z c])"
proof -
  define t where "t = origin mod 1000"
  define q where "q = origin div 1000"
  have o: "origin = q * 1000 + t" by (simp add: q_def t_def)
  have t: "0 \<le> t" "t < 1000" by (simp_all add: t_def)
  have kx: "intervalKey 1000 (x a) = Some ((origin + 100) div 1000 * 1000)"
    and ky: "intervalKey 1000 (y b) = Some ((origin + 500) div 1000 * 1000)"
    and kz: "intervalKey 1000 (z c) = Some ((origin + 1100) div 1000 * 1000)"
    by (simp_all add: intervalKey_def at_offset_def x_def y_def z_def)
  consider (low) "t < 500" | (mid) "500 \<le> t" "t < 900" | (high) "900 \<le> t" by linarith
  then show ?thesis
  proof cases
    case low
    have k: "(origin + 100) div 1000 * 1000 = q * 1000"
      "(origin + 500) div 1000 * 1000 = q * 1000"
      "(origin + 1100) div 1000 * 1000 = (q + 1) * 1000"
    proof -
      show "(origin + 100) div 1000 * 1000 = q * 1000"
      proof (rule key_of [of "t + 100"])
        show "0 \<le> t + 100" "t + 100 < 1000" using t low by simp_all
        show "origin + 100 = q * 1000 + (t + 100)" by (simp add: o)
      qed
      show "(origin + 500) div 1000 * 1000 = q * 1000"
      proof (rule key_of [of "t + 500"])
        show "0 \<le> t + 500" "t + 500 < 1000" using t low by simp_all
        show "origin + 500 = q * 1000 + (t + 500)" by (simp add: o)
      qed
      show "(origin + 1100) div 1000 * 1000 = (q + 1) * 1000"
      proof (rule key_of [of "t + 100"])
        show "0 \<le> t + 100" "t + 100 < 1000" using t low by simp_all
        show "origin + 1100 = (q + 1) * 1000 + (t + 100)" by (simp add: o)
      qed
    qed
    have g: "foldl (\<lambda>g item. group_insert (intervalKey 1000 item) item g) [] [x a, y b, z c] =
        [(Some (q * 1000), [x a, y b]), (Some ((q + 1) * 1000), [z c])]"
      by (simp add: kx ky kz k)
    have lt: "q * 1000 < (q + 1) * 1000" by simp
    have c: "origin mod 1000 < 500 \<or> 900 \<le> origin mod 1000" using low by (simp add: t_def)
    have av: "avgTime (make_bucket (Some (q * 1000), [x a, y b])) = (a + b) / 2"
      by (simp add: make_bucket_def x_def y_def at_offset_def)
    show ?thesis
      using two_groups [OF g lt] c av by (simp add: make_bucket_def)
  next
    case mid
    have k: "(origin + 100) div 1000 * 1000 = q * 1000"
      "(origin + 500) div 1000 * 1000 = (q + 1) * 1000"
      "(origin + 1100) div 1000 * 1000 = (q + 1) * 1000"
    proof -
      show "(origin + 100) div 1000 * 1000 = q * 1000"
      proof (rule key_of [of "t + 100"])
        show "0 \<le> t + 100" "t + 100 < 1000" using t mid by simp_all
        show "origin + 100 = q * 1000 + (t + 100)" by (simp add: o)
      qed
      show "(origin + 500) div 1000 * 1000 = (q + 1) * 1000"
      proof (rule key_of [of "t - 500"])
        show "0 \<le> t - 500" "t - 500 < 1000" using t mid by simp_all
        show "origin + 500 = (q + 1) * 1000 + (t - 500)" by (simp add: o)
      qed
      show "(origin + 1100) div 1000 * 1000 = (q + 1) * 1000"
      proof (rule key_of [of "t + 100"])
        show "0 \<le> t + 100" "t + 100 < 1000" using t mid by simp_all
        show "origin + 1100 = (q + 1) * 1000 + (t + 100)" by (simp add: o)
      qed
    qed
    have g: "foldl (\<lambda>g item. group_insert (intervalKey 1000 item) item g) [] [x a, y b, z c] =
        [(Some (q * 1000), [x a]), (Some ((q + 1) * 1000), [y b, z c])]"
      by (simp add: kx ky kz k)
    have lt: "q * 1000 < (q + 1) * 1000" by simp
    have c: "\<not> (origin mod 1000 < 500 \<or> 900 \<le> origin mod 1000)" using mid by (simp add: t_def)
    show ?thesis
      using two_groups [OF g lt] c by (simp add: make_bucket_def)
  next
    case high
    have k: "(origin + 100) div 1000 * 1000 = (q + 1) * 1000"
      "(origin + 500) div 1000 * 1000 = (q + 1) * 1000"
      "(origin + 1100) div 1000 * 1000 = (q + 2) * 1000"
    proof -
      show "(origin + 100) div 1000 * 1000 = (q + 1) * 1000"
      proof (rule key_of [of "t - 900"])
        show "0 \<le> t - 900" "t - 900 < 1000" using t high by simp_all
        show "origin + 100 = (q + 1) * 1000 + (t - 900)" by (simp add: o)
      qed
      show "(origin + 500) div 1000 * 1000 = (q + 1) * 1000"
      proof (rule key_of [of "t - 500"])
        show "0 \<le> t - 500" "t - 500 < 1000" using t high by simp_all
        show "origin + 500 = (q + 1) * 1000 + (t - 500)" by (simp add: o)
      qed
      show "(origin + 1100) div 1000 * 1000 = (q + 2) * 1000"
      proof (rule key_of [of "t - 900"])
        show "0 \<le> t - 900" "t - 900 < 1000" using t high by simp_all
        show "origin + 1100 = (q + 2) * 1000 + (t - 900)" by (simp add: o)
      qed
    qed
    have g: "foldl (\<lambda>g item. group_insert (intervalKey 1000 item) item g) [] [x a, y b, z c] =
        [(Some ((q + 1) * 1000), [x a, y b]), (Some ((q + 2) * 1000), [z c])]"
      by (simp add: kx ky kz k)
    have lt: "(q + 1) * 1000 < (q + 2) * 1000" by simp
    have c: "origin mod 1000 < 500 \<or> 900 \<le> origin mod 1000" using high by (simp add: t_def)
    have av: "avgTime (make_bucket (Some ((q + 1) * 1000), [x a, y b])) = (a + b) / 2"
      by (simp add: make_bucket_def x_def y_def at_offset_def)
    show ?thesis
      using two_groups [OF g lt] c av by (simp add: make_bucket_def)
  qed
qed

text \<open>
  Claim C8, as the code has it. For a non-zero interval and records with valid dates,
  \<open>groupByInterval\<close> puts each record under the key
  \<open>floor(timestamp / intervalMs) * intervalMs\<close>, returns one bucket per key, sorted
  strictly ascending by bucket start, each bucket holding the records of its key in input
  order with \<open>avgTime\<close> their mean and \<open>maxTime\<close> their maximum \<open>executionTimeMs\<close>.
  Three records 100 ms, 500 ms and 1100 ms after a common origin, grouped by 1000 ms, give
  exactly two buckets for every origin; the first holds the first two records, with
  \<open>avgTime\<close> their mean, when the origin lies less than 500 ms or at least 900 ms
  after a multiple of the interval, and only the first record otherwise. For an origin
  that is a multiple of the interval the buckets start at the origin and 1000 ms later.
\<close>

theorem group_by_interval:
  "(intervalMs \<noteq> 0 \<and> list_all (\<lambda>r. timestamp r \<noteq> None) data \<longrightarrow>
      (\<exists>bs. groupByInterval data intervalMs = Some bs \<and>
         sorted_wrt starts_before bs \<and>
         (\<forall>b\<in>set bs. \<exists>k. bucket_timestamp b = Some k \<and>
            items b = filter (\<lambda>r. intervalKey intervalMs r = Some k) data \<and>
            items b \<noteq> [] \<and> count b = length (items b) \<and>
            avgTime b = sum_list (map executionTimeMs (items b)) / of_nat (length (items b)) \<and>
            maxTime b = Max (set (map executionTimeMs (items b)))) \<and>
         (\<forall>r\<in>set data. \<exists>b\<in>set bs. bucket_timestamp b = intervalKey intervalMs r))) \<and>
   (timestamp r = Some ms \<and> intervalMs \<noteq> 0 \<longrightarrow>
      intervalKey intervalMs r = Some (\<lfloor>(of_int ms :: rat) / of_int intervalMs\<rfloor> * intervalMs)) \<and>
   (\<exists>b1 b2.
      groupByInterval
        [at_offset (origin + 100) a, at_offset (origin + 500) b, at_offset (origin + 1100) c] 1000 =
        Some [b1, b2] \<and>
      (if origin mod 1000 < 500 \<or> 900 \<le> origin mod 1000
       then items b1 = [at_offset (origin + 100) a, at_offset (origin + 500) b] \<and>
            avgTime b1 = (a + b) / 2 \<and> items b2 = [at_offset (origin + 1100) c]
       else items b1 = [at_offset (origin + 100) a] \<and>
            items b2 = [at_offset (origin + 500) b, at_offset (origin + 1100) c])) \<and>
   (origin mod 1000 = 0 \<longrightarrow>
      groupByInterval
        [at_offset (origin + 100) a, at_offset (origin + 500) b, at_offset (origin + 1100) c] 1000 =
      Some [\<lparr>bucket_timestamp = Some origin,
              items = [at_offset (origin + 100) a, at_offset (origin + 500) b],
              avgTime = (a + b) / 2, maxTime = max a b, count = 2\<rparr>,
            \<lparr>bucket_timestamp = Some (origin + 1000),
              items = [at_offset (origin + 1100) c],
              avgTime = c, maxTime = c, count = 1\<rparr>])"
proof (intro conjI)
  show "intervalMs \<noteq> 0 \<and> list_all (\<lambda>r. timestamp r \<noteq> None) data \<longrightarrow>
      (\<exists>bs. groupByInterval data intervalMs = Some bs \<and>
         sorted_wrt starts_before bs \<and>
         (\<forall>b\<in>set bs. \<exists>k. bucket_timestamp b = Some k \<and>
            items b = filter (\<lambda>r. intervalKey intervalMs r = Some k) data \<and>
            items b \<noteq> [] \<and> count b = length (items b) \<and>
            avgTime b = sum_list (map executionTimeMs (items b)) / of_nat (length (items b)) \<and>
            maxTime b = Max (set (map executionTimeMs (items b)))) \<and>
         (\<forall>r\<in>set data. \<exists>b\<in>set bs. bucket_timestamp b = intervalKey intervalMs r))"
    using grouping_general [of intervalMs data] by blast
  show "timestamp r = Some ms \<and> intervalMs \<noteq> 0 \<longrightarrow>
      intervalKey intervalMs r = Some (\<lfloor>(of_int ms :: rat) / of_int intervalMs\<rfloor> * intervalMs)"
    by (simp add: intervalKey_def floor_divide_of_int_eq)
  show "\<exists>b1 b2.
      groupByInterval
        [at_offset (origin + 100) a, at_offset (origin + 500) b, at_offset (origin + 1100) c] 1000 =
        Some [b1, b2] \<and>
      (if origin mod 1000 < 500 \<or> 900 \<le> origin mod 1000
       then items b1 = [at_offset (origin + 100) a, at_offset (origin + 500) b] \<and>
            avgTime b1 = (a + b) / 2 \<and> items b2 = [at_offset (origin + 1100) c]
       else items b1 = [at_offset (origin + 100) a] \<and>
            items b2 = [at_offset (origin + 500) b, at_offset (origin + 1100) c])"
    by (rule three_offsets)
  show "origin mod 1000 = 0 \<longrightarrow>
      groupByInterval
        [at_offset (origin + 100) a, at_offset (origin + 500) b, at_offset (origin + 1100) c] 1000 =
      Some [\<lparr>bucket_timestamp = Some origin,
              items = [at_offset (origin + 100) a, at_offset (origin + 500) b],
              avgTime = (a + b) / 2, maxTime = max a b, count = 2\<rparr>,
            \<lparr>bucket_timestamp = Some (origin + 1000),
              items = [at_offset (origin + 1100) c],
              avgTime = c, maxTime = c, count = 1\<rparr>]"
    using aligned_example [of origin a b c] by blast
qed

theorem group_by_interval_witness:
  "(1000::int) \<noteq> 0 \<and>
   list_all (\<lambda>r. timestamp r \<noteq> None) [at_offset 100 10, at_offset 500 20, at_offset 1100 30] \<and>
   (\<exists>bs. groupByInterval [at_offset 100 10, at_offset 500 20, at_offset 1100 30] 1000 = Some bs \<and>
      sorted_wrt starts_before bs) \<and>
   timestamp (at_offset 1100 30) = Some 1100 \<and>
   intervalKey 1000 (at_offset 1100 30) = Some 1000 \<and>
   (0::int) mod 1000 = 0 \<and>
   groupByInterval [at_offset 100 10, at_offset 500 20, at_offset 1100 30] 1000 =
     Some [\<lparr>bucket_timestamp = Some 0, items = [at_offset 100 10, at_offset 500 20],
             avgTime = 15, maxTime = 20, count = 2\<rparr>,
           \<lparr>bucket_timestamp = Some 1000, items = [at_offset 1100 30],
             avgTime = 30, maxTime = 30, count = 1\<rparr>]"
proof -
  note w = group_by_interval [of 1000 "[at_offset 100 10, at_offset 500 20, at_offset 1100 30]"
      "at_offset 1100 30" 1100 0 10 20 30]
  have h1: "(1000::int) \<noteq> 0 \<and>
      list_all (\<lambda>r. timestamp r \<noteq> None) [at_offset 100 10, at_offset 500 20, at_offset 1100 30]"
    by (simp add: at_offset_def)
  have h2: "timestamp (at_offset 1100 30) = Some 1100 \<and> (1000::int) \<noteq> 0"
    by (simp add: at_offset_def)
  note c1 = w [THEN conjunct1, rule_format, OF h1]
  note c2 = w [THEN conjunct2, THEN conjunct1, rule_format, OF h2]
  have z: "(0::int) mod 1000 = 0" by simp
  note c4 = w [THEN conjunct2, THEN conjunct2, THEN conjunct2, rule_format, OF z]
  have fl: "\<lfloor>(of_int 1100 :: rat) / of_int 1000\<rfloor> = 1"
    by (rule floor_unique) simp_all
  from c1 have e: "\<exists>bs. groupByInterval [at_offset 100 10, at_offset 500 20, at_offset 1100 30] 1000 =
      Some bs \<and> sorted_wrt starts_before bs"
    by blast
  have k: "intervalKey 1000 (at_offset 1100 30) = Some 1000"
    using c2 unfolding fl by simp
  have r: "groupByInterval [at_offset 100 10, at_offset 500 20, at_offset 1100 30] 1000 =
     Some [\<lparr>bucket_timestamp = Some 0, items = [at_offset 100 10, at_offset 500 20],
             avgTime = 15, maxTime = 20, count = 2\<rparr>,
           \<lparr>bucket_timestamp = Some 1000, items = [at_offset 1100 30],
             avgTime = 30, maxTime = 30, count = 1\<rparr>]"
    using c4 by simp
  show ?thesis
    using h1 h2 e k r z by (intro conjI) (simp_all only: simp_thms)
qed

text \<open>
  For an origin 500 ms after a multiple of the interval the first bucket holds one record
  and the second two.
\<close>

theorem unaligned_origin_first_bucket:
  "map_option (map count)
     (groupByInterval
        [at_offset (500 + 100) 10, at_offset (500 + 500) 20, at_offset (500 + 1100) 30] 1000) =
   Some [1, 2]"
  using unaligned_example by simp

end
